theory Spec2Isabelle
  imports Main "HOL-Library.Char_ord" "HOL-Library.List_Lexorder" "HOL-Library.Multiset"
begin

section \<open>Python values and exceptions\<close>

text \<open>
  The orders are parsed JSON: Python \<^verbatim>\<open>None\<close>, \<^verbatim>\<open>bool\<close>, \<^verbatim>\<open>int\<close>, \<^verbatim>\<open>float\<close>, \<^verbatim>\<open>str\<close>,
  \<^verbatim>\<open>list\<close> and \<^verbatim>\<open>dict\<close> with string keys. A dict is an association list in insertion
  order, read by the first entry of a key. A string is a list of 8-bit characters, read
  as the code points below 256; on these, the class \<^verbatim>\<open>\d\<close> of Python's \<^verbatim>\<open>re\<close> is
  exactly the ASCII digits. Strings with code points from 256 on, where \<^verbatim>\<open>\d\<close> also
  holds on the decimal digits of other scripts, are outside the model.

  A float is kept as sign, mantissa and binary exponent (or an infinity, or not-a-number):
  the program only asks whether it equals zero.
\<close>

datatype pyfloat = Finite bool nat int | Infinity bool | NaN

datatype json =
    JNull
  | JBool bool
  | JInt int
  | JFloat pyfloat
  | JStr string
  | JList "json list"
  | JDict "(string \<times> json) list"

datatype error =
    AttributeError
  | TypeError
  | ValueError
  | OverflowError
  | HTTPError
  | ConnectionError

fun float_is_zero :: "pyfloat \<Rightarrow> bool" where
  "float_is_zero (Finite s m e) = (m = 0)"
| "float_is_zero (Infinity s) = False"
| "float_is_zero NaN = False"

text \<open>Python's truth value of an object, as \<^verbatim>\<open>not x\<close>, \<^verbatim>\<open>x or y\<close> and \<^verbatim>\<open>if x\<close> use it.\<close>

fun truthy :: "json \<Rightarrow> bool" where
  "truthy JNull = False"
| "truthy (JBool b) = b"
| "truthy (JInt i) = (i \<noteq> 0)"
| "truthy (JFloat f) = (\<not> float_is_zero f)"
| "truthy (JStr s) = (s \<noteq> [])"
| "truthy (JList xs) = (xs \<noteq> [])"
| "truthy (JDict kvs) = (kvs \<noteq> [])"

text \<open>\<^verbatim>\<open>x == 0\<close>: numbers compare by value, \<^verbatim>\<open>False\<close> is the number 0, anything else differs.\<close>

fun eq_zero :: "json \<Rightarrow> bool" where
  "eq_zero (JInt i) = (i = 0)"
| "eq_zero (JFloat f) = float_is_zero f"
| "eq_zero (JBool b) = (\<not> b)"
| "eq_zero JNull = False"
| "eq_zero (JStr s) = False"
| "eq_zero (JList xs) = False"
| "eq_zero (JDict kvs) = False"

text \<open>
  \<^verbatim>\<open>x.get(key, default)\<close>: only a dict has the method; on any other JSON value the
  attribute lookup raises \<^verbatim>\<open>AttributeError\<close>.
\<close>

fun get_default :: "json \<Rightarrow> string \<Rightarrow> json \<Rightarrow> error + json" where
  "get_default (JDict kvs) k d = Inr (case map_of kvs k of None \<Rightarrow> d | Some v \<Rightarrow> v)"
| "get_default x k d = Inl AttributeError"

definition get :: "json \<Rightarrow> string \<Rightarrow> error + json" where
  "get x k = get_default x k JNull"

section \<open>The phone pattern\<close>

text \<open>
  The fragment of Python's regular expressions that \<^verbatim>\<open>PHONE_PATTERN\<close> is written in:
  literal text, \<^verbatim>\<open>\d\<close>, alternation, sequence, a fixed repetition \<^verbatim>\<open>{n}\<close>, the negative
  lookahead \<^verbatim>\<open>(?!...)\<close> and the anchors \<^verbatim>\<open>^\<close> and \<^verbatim>\<open>$\<close> (no flags are set).
\<close>

datatype regex =
    Lit string
  | Digit
  | Alt regex regex
  | Seq regex regex
  | Rep nat regex
  | NegLookahead regex
  | Bol
  | Eol

text \<open>
  A position in the subject is the flag "nothing consumed yet" and the rest of the
  subject. \<open>rmatch r p\<close> lists the positions where a match of \<open>r\<close> begun at \<open>p\<close> can end.
  Without the MULTILINE flag \<^verbatim>\<open>^\<close> holds at the start of the subject only, and \<^verbatim>\<open>$\<close> holds
  at its end and also just before a newline that is its last character.
\<close>

definition is_digit :: "char \<Rightarrow> bool" where
  "is_digit c = (CHR ''0'' \<le> c \<and> c \<le> CHR ''9'')"

fun strip_prefix :: "string \<Rightarrow> string \<Rightarrow> string option" where
  "strip_prefix [] s = Some s"
| "strip_prefix (c # cs) [] = None"
| "strip_prefix (c # cs) (d # ds) = (if c = d then strip_prefix cs ds else None)"

fun iterate :: "nat \<Rightarrow> ('a \<Rightarrow> 'a list) \<Rightarrow> 'a \<Rightarrow> 'a list" where
  "iterate 0 f p = [p]"
| "iterate (Suc n) f p = concat (map (iterate n f) (f p))"

fun rmatch :: "regex \<Rightarrow> bool \<times> string \<Rightarrow> (bool \<times> string) list" where
  "rmatch (Lit w) (b, s) =
     (case strip_prefix w s of None \<Rightarrow> [] | Some s' \<Rightarrow> [(b \<and> w = [], s')])"
| "rmatch Digit (b, s) =
     (case s of [] \<Rightarrow> [] | c # s' \<Rightarrow> if is_digit c then [(False, s')] else [])"
| "rmatch (Alt r1 r2) p = rmatch r1 p @ rmatch r2 p"
| "rmatch (Seq r1 r2) p = concat (map (rmatch r2) (rmatch r1 p))"
| "rmatch (Rep n r) p = iterate n (rmatch r) p"
| "rmatch (NegLookahead r) p = (if rmatch r p = [] then [p] else [])"
| "rmatch Bol (b, s) = (if b then [(b, s)] else [])"
| "rmatch Eol (b, s) = (if s = [] \<or> s = [CHR 0x0A] then [(b, s)] else [])"

definition alts :: "string list \<Rightarrow> regex" where
  "alts ws = foldr (\<lambda>w r. Alt (Lit w) r) (butlast ws) (Lit (last ws))"

definition PHONE_PATTERN :: regex where
  "PHONE_PATTERN =
     Seq Bol (Seq (Lit ''+380'')
       (Seq (alts [''39'', ''50'', ''63'', ''66'', ''67'', ''68'', ''73'', ''91'', ''92'',
                   ''93'', ''95'', ''96'', ''97'', ''98'', ''99''])
       (Seq (NegLookahead (alts [''0000000'', ''1111111'', ''2222222'', ''3333333'',
                   ''4444444'', ''5555555'', ''6666666'', ''7777777'', ''8888888'',
                   ''9999999'']))
       (Seq (Rep 7 Digit) Eol))))"

text \<open>\<^verbatim>\<open>pattern.match(s)\<close> is truthy when a match begun at the start of \<open>s\<close> exists.\<close>

definition re_match :: "regex \<Rightarrow> string \<Rightarrow> bool" where
  "re_match r s = (rmatch r (True, s) \<noteq> [])"

section \<open>The summary\<close>

text \<open>Line 109, \<^verbatim>\<open>od = o.get('order') or o\<close>: the view of an order that is analysed.\<close>

definition unwrap :: "json \<Rightarrow> error + json" where
  "unwrap order =
     (case get order ''order'' of
        Inl e \<Rightarrow> Inl e
      | Inr w \<Rightarrow> Inr (if truthy w then w else order))"

text \<open>
  The loop of \<^verbatim>\<open>summarize\<close> over the orders, with its five local variables. Only a string
  reaches \<^verbatim>\<open>phones\<close> and survives: \<^verbatim>\<open>PHONE_PATTERN.match(ph)\<close> raises \<^verbatim>\<open>TypeError\<close> on
  any other truthy value.
\<close>

fun summarize_loop ::
  "json list \<Rightarrow> string list \<Rightarrow> string list \<Rightarrow> nat \<Rightarrow> nat \<Rightarrow> nat \<Rightarrow>
   error + (string list \<times> string list \<times> nat \<times> nat \<times> nat)" where
  "summarize_loop [] phones invalid no_client no_phone zero =
     Inr (phones, invalid, no_client, no_phone, zero)"
| "summarize_loop (order # orders) phones invalid no_client no_phone zero =
     (case unwrap order of
        Inl e \<Rightarrow> Inl e
      | Inr od \<Rightarrow>
     (case get od ''customer'' of
        Inl e \<Rightarrow> Inl e
      | Inr customer \<Rightarrow>
     if \<not> truthy customer
     then summarize_loop orders phones invalid (no_client + 1) no_phone zero
     else
     (case get od ''phone'' of
        Inl e \<Rightarrow> Inl e
      | Inr ph \<Rightarrow>
     if \<not> truthy ph
     then summarize_loop orders phones invalid no_client (no_phone + 1) zero
     else
     (case ph of
        JStr p \<Rightarrow>
          (case get_default od ''sum'' (JInt 0) of
             Inl e \<Rightarrow> Inl e
           | Inr total_sum \<Rightarrow>
               summarize_loop orders (phones @ [p])
                 (if \<not> re_match PHONE_PATTERN p then invalid @ [p] else invalid)
                 no_client no_phone
                 (if eq_zero total_sum then zero + 1 else zero))
      | _ \<Rightarrow> Inl TypeError))))"

subsection \<open>The same loop over a store of objects\<close>

text \<open>
  Python lists and dicts are objects that several names can share and that can be changed
  in place. Here a value is a scalar or the address of an object, and the store lists the
  objects by address; a new object goes to the end of the store.
\<close>

type_synonym addr = nat

datatype pyval = VNone | VBool bool | VInt int | VFloat pyfloat | VStr string | VRef addr

datatype pyobj = OList "pyval list" | ODict "(string \<times> pyval) list"

type_synonym store = "pyobj list"

definition deref :: "store \<Rightarrow> addr \<Rightarrow> pyobj option" where
  "deref h a = (if a < length h then Some (h ! a) else None)"

definition alloc :: "store \<Rightarrow> pyobj \<Rightarrow> store \<times> addr" where
  "alloc h ob = (h @ [ob], length h)"

fun truthy_at :: "store \<Rightarrow> pyval \<Rightarrow> bool" where
  "truthy_at h VNone = False"
| "truthy_at h (VBool b) = b"
| "truthy_at h (VInt i) = (i \<noteq> 0)"
| "truthy_at h (VFloat f) = (\<not> float_is_zero f)"
| "truthy_at h (VStr s) = (s \<noteq> [])"
| "truthy_at h (VRef a) =
     (case deref h a of
        Some (OList xs) \<Rightarrow> xs \<noteq> []
      | Some (ODict kvs) \<Rightarrow> kvs \<noteq> []
      | None \<Rightarrow> False)"

fun eq_zero_val :: "pyval \<Rightarrow> bool" where
  "eq_zero_val (VInt i) = (i = 0)"
| "eq_zero_val (VFloat f) = float_is_zero f"
| "eq_zero_val (VBool b) = (\<not> b)"
| "eq_zero_val VNone = False"
| "eq_zero_val (VStr s) = False"
| "eq_zero_val (VRef a) = False"

fun get_at :: "store \<Rightarrow> pyval \<Rightarrow> string \<Rightarrow> pyval \<Rightarrow> error + pyval" where
  "get_at h (VRef a) k d =
     (case deref h a of
        Some (ODict kvs) \<Rightarrow> Inr (case map_of kvs k of None \<Rightarrow> d | Some v \<Rightarrow> v)
      | _ \<Rightarrow> Inl AttributeError)"
| "get_at h v k d = Inl AttributeError"

text \<open>\<^verbatim>\<open>xs.append(v)\<close>: the list object at the address is replaced by the longer list.\<close>

definition list_append :: "store \<Rightarrow> addr \<Rightarrow> pyval \<Rightarrow> store \<times> (error + unit)" where
  "list_append h a v =
     (case deref h a of
        Some (OList xs) \<Rightarrow> (h[a := OList (xs @ [v])], Inr ())
      | _ \<Rightarrow> (h, Inl AttributeError))"

text \<open>
  Lines 109 to 121 for one order. The lists \<^verbatim>\<open>phones\<close> and \<^verbatim>\<open>invalid\<close> are objects of
  the store, given by their addresses; the counters are numbers. The store is returned
  also when the body raises.
\<close>

definition body_at ::
  "store \<Rightarrow> pyval \<Rightarrow> addr \<Rightarrow> addr \<Rightarrow> nat \<Rightarrow> nat \<Rightarrow> nat \<Rightarrow>
   store \<times> (error + nat \<times> nat \<times> nat)" where
  "body_at h order phones invalid no_client no_phone zero =
     (case get_at h order ''order'' VNone of
        Inl e \<Rightarrow> (h, Inl e)
      | Inr w \<Rightarrow>
     (let od = (if truthy_at h w then w else order) in
     (case get_at h od ''customer'' VNone of
        Inl e \<Rightarrow> (h, Inl e)
      | Inr customer \<Rightarrow>
     if \<not> truthy_at h customer then (h, Inr (no_client + 1, no_phone, zero))
     else
     (case get_at h od ''phone'' VNone of
        Inl e \<Rightarrow> (h, Inl e)
      | Inr ph \<Rightarrow>
     if \<not> truthy_at h ph then (h, Inr (no_client, no_phone + 1, zero))
     else
     (case list_append h phones ph of
        (h1, Inl e) \<Rightarrow> (h1, Inl e)
      | (h1, Inr u) \<Rightarrow>
     (case ph of
        VStr p \<Rightarrow>
          (case (if \<not> re_match PHONE_PATTERN p then list_append h1 invalid ph
                 else (h1, Inr ())) of
             (h2, Inl e) \<Rightarrow> (h2, Inl e)
           | (h2, Inr u) \<Rightarrow>
          (case get_at h2 od ''sum'' (VInt 0) of
             Inl e \<Rightarrow> (h2, Inl e)
           | Inr total_sum \<Rightarrow>
               (h2, Inr (no_client, no_phone,
                         if eq_zero_val total_sum then zero + 1 else zero))))
      | _ \<Rightarrow> (h1, Inl TypeError)))))))"

text \<open>
  \<^verbatim>\<open>for o in orders\<close> reads the list object by index, anew at every step, until the
  index reaches its length. A list that grows while it is read would keep the loop
  running: the fuel bounds the number of steps, and \<open>None\<close> is a loop that has not ended
  within it. Iterating over an object that is not a list is kept as \<^verbatim>\<open>TypeError\<close>.
\<close>

fun loop_at ::
  "nat \<Rightarrow> store \<Rightarrow> addr \<Rightarrow> nat \<Rightarrow> addr \<Rightarrow> addr \<Rightarrow> nat \<Rightarrow> nat \<Rightarrow> nat \<Rightarrow>
   (store \<times> (error + nat \<times> nat \<times> nat)) option" where
  "loop_at 0 h orders i phones invalid no_client no_phone zero = None"
| "loop_at (Suc fuel) h orders i phones invalid no_client no_phone zero =
     (case deref h orders of
        Some (OList items) \<Rightarrow>
          if i < length items then
            (case body_at h (items ! i) phones invalid no_client no_phone zero of
               (h', Inl e) \<Rightarrow> Some (h', Inl e)
             | (h', Inr (no_client', no_phone', zero')) \<Rightarrow>
                 loop_at fuel h' orders (i + 1) phones invalid no_client' no_phone' zero')
          else Some (h, Inr (no_client, no_phone, zero))
      | _ \<Rightarrow> Some (h, Inl TypeError))"

text \<open>The strings of a list object, as \<^verbatim>\<open>Counter\<close>, \<^verbatim>\<open>set\<close> and \<^verbatim>\<open>sorted\<close> read them.\<close>

fun strings_of :: "pyval list \<Rightarrow> string list" where
  "strings_of [] = []"
| "strings_of (VStr p # vs) = p # strings_of vs"
| "strings_of (v # vs) = strings_of vs"

text \<open>
  \<^verbatim>\<open>Counter(phones)\<close>: a dict from each element to its number of occurrences, in the order
  of first occurrence.
\<close>

fun counter_add :: "(string \<times> nat) list \<Rightarrow> string \<Rightarrow> (string \<times> nat) list" where
  "counter_add [] p = [(p, 1)]"
| "counter_add ((q, c) # cnt) p =
     (if p = q then (q, c + 1) # cnt else (q, c) # counter_add cnt p)"

definition Counter :: "string list \<Rightarrow> (string \<times> nat) list" where
  "Counter xs = foldl counter_add [] xs"

record summary =
  total :: nat
  no_client :: nat
  no_phone :: nat
  invalid :: "string list"
  inv_count :: nat
  zero :: nat
  unique :: nat
  dup :: "(string \<times> nat) list"

definition summarize :: "json list \<Rightarrow> error + summary" where
  "summarize orders =
     (case summarize_loop orders [] [] 0 0 0 of
        Inl e \<Rightarrow> Inl e
      | Inr (phones, invalid_l, no_client_n, no_phone_n, zero_n) \<Rightarrow>
          (let cnt = Counter phones;
               dup_d = filter (\<lambda>(p, c). c > 1) cnt
           in Inr \<lparr> total = length orders,
                    no_client = no_client_n,
                    no_phone = no_phone_n,
                    invalid = sort (remdups invalid_l),
                    inv_count = length invalid_l,
                    zero = zero_n,
                    unique = length cnt,
                    dup = dup_d \<rparr>))"

text \<open>
  \<^verbatim>\<open>summarize\<close> over the store: the two local lists are new objects, the loop runs, and the
  record is built from what the store then holds. The lists built after the loop and the
  returned dict are new objects as well; they are kept as the value of the record.
\<close>

definition list_at :: "store \<Rightarrow> addr \<Rightarrow> error + pyval list" where
  "list_at h a = (case deref h a of Some (OList xs) \<Rightarrow> Inr xs | _ \<Rightarrow> Inl TypeError)"

definition build_summary ::
  "store \<Rightarrow> addr \<Rightarrow> addr \<Rightarrow> addr \<Rightarrow> nat \<Rightarrow> nat \<Rightarrow> nat \<Rightarrow> error + summary" where
  "build_summary h orders phones invalid_l no_client_n no_phone_n zero_n =
     (case list_at h phones of Inl e \<Rightarrow> Inl e | Inr ps \<Rightarrow>
      case list_at h invalid_l of Inl e \<Rightarrow> Inl e | Inr iv \<Rightarrow>
      case list_at h orders of Inl e \<Rightarrow> Inl e | Inr items \<Rightarrow>
        (let cnt = Counter (strings_of ps);
             dup_d = filter (\<lambda>(p, c). c > 1) cnt
         in Inr \<lparr> total = length items,
                  no_client = no_client_n,
                  no_phone = no_phone_n,
                  invalid = sort (remdups (strings_of iv)),
                  inv_count = length iv,
                  zero = zero_n,
                  unique = length cnt,
                  dup = dup_d \<rparr>))"

definition summarize_at :: "nat \<Rightarrow> store \<Rightarrow> addr \<Rightarrow> (store \<times> (error + summary)) option" where
  "summarize_at fuel h orders =
     (case alloc h (OList []) of (h1, phones) \<Rightarrow>
      case alloc h1 (OList []) of (h2, invalid_l) \<Rightarrow>
      case loop_at fuel h2 orders 0 phones invalid_l 0 0 0 of
        None \<Rightarrow> None
      | Some (h3, Inl e) \<Rightarrow> Some (h3, Inl e)
      | Some (h3, Inr (no_client_n, no_phone_n, zero_n)) \<Rightarrow>
          Some (h3, build_summary h3 orders phones invalid_l no_client_n no_phone_n zero_n))"

section \<open>Collecting the orders day by day\<close>

text \<open>
  A naive \<^verbatim>\<open>datetime\<close> is the number of microseconds since 0001-01-01 00:00:00; the
  largest one is 9999-12-31 23:59:59.999999, and adding a \<^verbatim>\<open>timedelta\<close> beyond it raises
  \<^verbatim>\<open>OverflowError\<close>.
\<close>

type_synonym datetime = int

definition day :: int where
  "day = 86400000000"

definition datetime_max :: datetime where
  "datetime_max = 3652059 * day - 1"

definition add_day :: "datetime \<Rightarrow> error + datetime" where
  "add_day dt = (if dt + day > datetime_max then Inl OverflowError else Inr (dt + day))"

text \<open>
  \<^verbatim>\<open>format_dt\<close> writes the date and time to the second, then the milliseconds
  \<^verbatim>\<open>dt.microsecond // 1000\<close>: the text is kept as this pair of numbers.
\<close>

type_synonym wire_time = "int \<times> int"

definition format_dt :: "datetime \<Rightarrow> wire_time" where
  "format_dt dt = (let ms = (dt mod 1000000) div 1000 in (dt div 1000000, ms))"

text \<open>
  The \<^verbatim>\<open>while\<close> loop of \<^verbatim>\<open>fetch_orders\<close>. The collaborator \<^verbatim>\<open>get_deliveries\<close> (with the
  token, the URL and the organization fixed) either returns the orders of a window or
  raises; only \<^verbatim>\<open>requests.HTTPError\<close> is caught.
\<close>

function fetch_loop ::
  "(wire_time \<Rightarrow> wire_time \<Rightarrow> error + json list) \<Rightarrow> datetime \<Rightarrow> datetime \<Rightarrow> json list \<Rightarrow>
   error + json list" where
  "fetch_loop get_deliveries cur end all_orders =
     (if cur < end then
        (case add_day cur of
           Inl e \<Rightarrow> Inl e
         | Inr t \<Rightarrow>
             (let nxt = min t end;
                  s = format_dt cur;
                  e = format_dt nxt
              in case get_deliveries s e of
                   Inr batch \<Rightarrow> fetch_loop get_deliveries nxt end (all_orders @ batch)
                 | Inl HTTPError \<Rightarrow> fetch_loop get_deliveries nxt end all_orders
                 | Inl err \<Rightarrow> Inl err))
      else Inr all_orders)"
  by pat_completeness auto
termination
  by (relation "measure (\<lambda>(g, cur, end, acc). nat (end - cur))")
     (auto simp: add_day_def day_def split: if_splits)

text \<open>The windows \<open>(cur, nxt)\<close> that the loop walks through, one per iteration.\<close>

function windows :: "datetime \<Rightarrow> datetime \<Rightarrow> error + (datetime \<times> datetime) list" where
  "windows cur end =
     (if cur < end then
        (case add_day cur of
           Inl e \<Rightarrow> Inl e
         | Inr t \<Rightarrow>
             (let nxt = min t end
              in case windows nxt end of
                   Inl e \<Rightarrow> Inl e
                 | Inr ws \<Rightarrow> Inr ((cur, nxt) # ws)))
      else Inr [])"
  by pat_completeness auto
termination
  by (relation "measure (\<lambda>(cur, end). nat (end - cur))")
     (auto simp: add_day_def day_def split: if_splits)

text \<open>Lines 87 and 88: an end in the future is replaced by the clock's reading.\<close>

definition clamp :: "datetime \<Rightarrow> datetime \<Rightarrow> datetime" where
  "clamp end now = (if end > now then now else end)"

text \<open>
  \<^verbatim>\<open>fetch_orders\<close>: \<^verbatim>\<open>strptime\<close> (which raises \<^verbatim>\<open>ValueError\<close> on text that is not a date)
  and the clock are parameters.
\<close>

definition fetch_orders ::
  "(string \<Rightarrow> error + datetime) \<Rightarrow> datetime \<Rightarrow>
   (wire_time \<Rightarrow> wire_time \<Rightarrow> error + json list) \<Rightarrow> string \<Rightarrow> string \<Rightarrow> error + json list" where
  "fetch_orders strptime now get_deliveries frm to =
     (case strptime frm of
        Inl e \<Rightarrow> Inl e
      | Inr start \<Rightarrow>
     (case strptime to of
        Inl e \<Rightarrow> Inl e
      | Inr end0 \<Rightarrow>
          (let end = clamp end0 now
           in fetch_loop get_deliveries start end [])))"

section \<open>What the summary counts\<close>

datatype verdict = NoClient | NoPhone | WithPhone string bool

definition analyse_view :: "json \<Rightarrow> error + verdict" where
  "analyse_view od =
     (case get od ''customer'' of
        Inl e \<Rightarrow> Inl e
      | Inr customer \<Rightarrow>
     if \<not> truthy customer then Inr NoClient
     else
     (case get od ''phone'' of
        Inl e \<Rightarrow> Inl e
      | Inr ph \<Rightarrow>
     if \<not> truthy ph then Inr NoPhone
     else
     (case ph of
        JStr p \<Rightarrow>
          (case get_default od ''sum'' (JInt 0) of
             Inl e \<Rightarrow> Inl e
           | Inr total_sum \<Rightarrow> Inr (WithPhone p (eq_zero total_sum)))
      | _ \<Rightarrow> Inl TypeError)))"

definition analyse :: "json \<Rightarrow> error + verdict" where
  "analyse order = (case unwrap order of Inl e \<Rightarrow> Inl e | Inr od \<Rightarrow> analyse_view od)"

fun tally :: "verdict \<Rightarrow> string list \<times> string list \<times> nat \<times> nat \<times> nat \<Rightarrow>
    string list \<times> string list \<times> nat \<times> nat \<times> nat" where
  "tally NoClient (ps, iv, nc, np, z) = (ps, iv, nc + 1, np, z)"
| "tally NoPhone (ps, iv, nc, np, z) = (ps, iv, nc, np + 1, z)"
| "tally (WithPhone p b) (ps, iv, nc, np, z) =
     (ps @ [p], if \<not> re_match PHONE_PATTERN p then iv @ [p] else iv,
      nc, np, if b then z + 1 else z)"

definition field_present :: "json \<Rightarrow> string \<Rightarrow> bool" where
  "field_present od k = (case get od k of Inr v \<Rightarrow> truthy v | Inl e \<Rightarrow> False)"

definition lacks_customer :: "json \<Rightarrow> bool" where
  "lacks_customer order =
     (case unwrap order of Inr od \<Rightarrow> \<not> field_present od ''customer'' | Inl e \<Rightarrow> False)"

definition lacks_phone :: "json \<Rightarrow> bool" where
  "lacks_phone order =
     (case unwrap order of
        Inr od \<Rightarrow> field_present od ''customer'' \<and> \<not> field_present od ''phone''
      | Inl e \<Rightarrow> False)"

definition considered :: "json \<Rightarrow> bool" where
  "considered order =
     (case unwrap order of
        Inr od \<Rightarrow> field_present od ''customer'' \<and> field_present od ''phone''
      | Inl e \<Rightarrow> False)"

definition phone_entries :: "json \<Rightarrow> string list" where
  "phone_entries order =
     (if considered order then
        (case unwrap order of
           Inr od \<Rightarrow> (case get od ''phone'' of Inr (JStr p) \<Rightarrow> [p] | _ \<Rightarrow> [])
         | Inl e \<Rightarrow> [])
      else [])"

definition considered_phones :: "json list \<Rightarrow> string list" where
  "considered_phones orders = concat (map phone_entries orders)"

definition zero_sum :: "json \<Rightarrow> bool" where
  "zero_sum order =
     (case unwrap order of
        Inr od \<Rightarrow> (case get_default od ''sum'' (JInt 0) of Inr s \<Rightarrow> eq_zero s | Inl e \<Rightarrow> False)
      | Inl e \<Rightarrow> False)"

definition phone_typed :: "(string \<times> json) list \<Rightarrow> bool" where
  "phone_typed kvs =
     (case map_of kvs ''phone'' of
        None \<Rightarrow> True
      | Some JNull \<Rightarrow> True
      | Some (JStr p) \<Rightarrow> True
      | Some _ \<Rightarrow> False)"

fun order_record :: "json \<Rightarrow> bool" where
  "order_record (JDict kvs) =
     (case map_of kvs ''order'' of
        None \<Rightarrow> phone_typed kvs
      | Some JNull \<Rightarrow> phone_typed kvs
      | Some (JDict kvs') \<Rightarrow> if kvs' = [] then phone_typed kvs else phone_typed kvs'
      | Some _ \<Rightarrow> False)"
| "order_record _ = False"

text \<open>
  The order field of a record, and the two readings of "the order field takes
  precedence": whenever the key is there, or only when its value is truthy.
\<close>

definition order_field :: "json \<Rightarrow> json option" where
  "order_field order = (case order of JDict kvs \<Rightarrow> map_of kvs ''order'' | _ \<Rightarrow> None)"

definition unwrap_if_present :: "json \<Rightarrow> json" where
  "unwrap_if_present order = (case order_field order of Some w \<Rightarrow> w | None \<Rightarrow> order)"

definition unwrap_if_truthy :: "json \<Rightarrow> json" where
  "unwrap_if_truthy order =
     (case order_field order of Some w \<Rightarrow> if truthy w then w else order | None \<Rightarrow> order)"

section \<open>Example inputs\<close>

text \<open>The four orders of the specification's example, for a given customer value.\<close>

definition example_orders :: "json \<Rightarrow> json list" where
  "example_orders customer =
     [JDict [(''customer'', JNull)],
      JDict [(''customer'', customer), (''phone'', JNull)],
      JDict [(''customer'', customer), (''phone'', JStr ''+380501234567''), (''sum'', JInt 0)],
      JDict [(''customer'', customer), (''phone'', JStr ''+380501234567''), (''sum'', JInt 10)]]"

definition some_customer :: json where
  "some_customer = JDict [(''id'', JStr ''c1''), (''name'', JStr ''Olena'')]"

text \<open>Orders whose phones are mostly not numbers of the plan, one of them twice.\<close>

definition misdialled_orders :: "json list" where
  "misdialled_orders =
     [JDict [(''customer'', some_customer), (''phone'', JStr ''abc'')],
      JDict [(''customer'', some_customer), (''phone'', JStr ''12'')],
      JDict [(''customer'', some_customer), (''phone'', JStr ''+380501234567'')],
      JDict [(''order'', JDict [(''customer'', some_customer), (''phone'', JStr ''abc'')])]]"

text \<open>Orders of sum 0 with and without a customer and a phone.\<close>

definition free_orders :: "json list" where
  "free_orders =
     [JDict [(''customer'', JNull), (''phone'', JStr ''+380501234567''), (''sum'', JInt 0)],
      JDict [(''customer'', some_customer), (''sum'', JInt 0)],
      JDict [(''customer'', some_customer), (''phone'', JStr ''+380501234567''), (''sum'', JInt 0)],
      JDict [(''customer'', some_customer), (''phone'', JStr ''+380671234567'')],
      JDict [(''customer'', some_customer), (''phone'', JStr ''+380671234567''), (''sum'', JInt 10)]]"

text \<open>An order with an empty wrapper beside its own fields, and a wrapped order.\<close>

definition empty_wrapper_order :: json where
  "empty_wrapper_order =
     JDict [(''order'', JDict []), (''customer'', some_customer),
            (''phone'', JStr ''+380501234567'')]"

definition wrapped_order :: json where
  "wrapped_order =
     JDict [(''id'', JStr ''w1''),
            (''order'', JDict [(''customer'', some_customer), (''phone'', JNull)])]"

section \<open>The numbering plan in the specification's words\<close>

text \<open>
  The operator codes and the repeated-digit suffixes that the specification lists, and
  its validity of a phone: the prefix \<^verbatim>\<open>+380\<close>, an operator code, then exactly seven
  digits that are not one digit repeated, and nothing else.
\<close>

definition operator_codes :: "string list" where
  "operator_codes = [''39'', ''50'', ''63'', ''66'', ''67'', ''68'', ''73'', ''91'', ''92'',
                     ''93'', ''95'', ''96'', ''97'', ''98'', ''99'']"

definition repeated_digits :: "string list" where
  "repeated_digits = map (replicate 7) ''0123456789''"

definition plan_number :: "string \<Rightarrow> bool" where
  "plan_number s =
     (length s = 13 \<and> take 4 s = ''+380'' \<and> take 2 (drop 4 s) \<in> set operator_codes \<and>
      list_all is_digit (drop 6 s) \<and> drop 6 s \<notin> set repeated_digits)"

text \<open>An order whose phone is a number of the plan followed by a newline.\<close>

definition newline_phone :: string where
  "newline_phone = ''+380501234567'' @ [CHR 0x0A]"

definition newline_order :: json where
  "newline_order =
     JDict [(''customer'', some_customer), (''phone'', JStr newline_phone),
            (''sum'', JInt 250)]"

section \<open>Windows and what the loop collects\<close>

text \<open>
  \<open>chain a ws b\<close>: the windows \<open>ws\<close> lead from \<open>a\<close> to \<open>b\<close>, each starting where the one
  before it ended, none empty and none longer than a day.
\<close>

fun chain :: "datetime \<Rightarrow> (datetime \<times> datetime) list \<Rightarrow> datetime \<Rightarrow> bool" where
  "chain a [] b = (a = b)"
| "chain a ((c, n) # ws) b = (c = a \<and> c < n \<and> n - c \<le> day \<and> chain n ws b)"

text \<open>
  The body of the loop of \<^verbatim>\<open>fetch_orders\<close> run along a given list of windows: the
  collaborator is called once per window, with the formatted bounds.
\<close>

fun collect ::
  "(wire_time \<Rightarrow> wire_time \<Rightarrow> error + json list) \<Rightarrow> (datetime \<times> datetime) list \<Rightarrow>
   json list \<Rightarrow> error + json list" where
  "collect g [] acc = Inr acc"
| "collect g ((c, n) # ws) acc =
     (case g (format_dt c) (format_dt n) of
        Inr batch \<Rightarrow> collect g ws (acc @ batch)
      | Inl HTTPError \<Rightarrow> collect g ws acc
      | Inl err \<Rightarrow> Inl err)"

text \<open>The orders that a window contributes: its batch, or nothing when the call raised.\<close>

definition window_orders ::
  "(wire_time \<Rightarrow> wire_time \<Rightarrow> error + json list) \<Rightarrow> datetime \<times> datetime \<Rightarrow> json list" where
  "window_orders g w =
     (case g (format_dt (fst w)) (format_dt (snd w)) of Inr batch \<Rightarrow> batch | Inl e \<Rightarrow> [])"

text \<open>The failure of a window's call, if it raised.\<close>

definition window_error ::
  "(wire_time \<Rightarrow> wire_time \<Rightarrow> error + json list) \<Rightarrow> datetime \<times> datetime \<Rightarrow> error option" where
  "window_error g w =
     (case g (format_dt (fst w)) (format_dt (snd w)) of Inr batch \<Rightarrow> None | Inl e \<Rightarrow> Some e)"

text \<open>
  A clock, a \<^verbatim>\<open>strptime\<close> that knows three texts, and a collaborator that returns one
  order per window except on the window that starts on 2024-01-02, where it raises.
\<close>

definition jan1 :: datetime where
  "jan1 = 738885 * day"

definition example_strptime :: "string \<Rightarrow> error + datetime" where
  "example_strptime txt =
     (if txt = ''2024-01-01 00:00:00.000'' then Inr jan1
      else if txt = ''2024-01-03 12:00:00.000'' then Inr (jan1 + 2 * day + 43200000000)
      else if txt = ''2023-12-31 00:00:00.000'' then Inr (jan1 - day)
      else Inl ValueError)"

definition example_now :: datetime where
  "example_now = jan1 + 10 * day"

definition order_of_window :: "wire_time \<Rightarrow> json" where
  "order_of_window s = JDict [(''deliveryDateFrom'', JInt (fst s))]"

definition failing_fetch :: "error \<Rightarrow> wire_time \<Rightarrow> wire_time \<Rightarrow> error + json list" where
  "failing_fetch err s e =
     (if s = format_dt (jan1 + day) then Inl err else Inr [order_of_window s])"

section \<open>Stores and the values they hold\<close>

text \<open>
  \<open>rep h v j\<close>: in the store \<open>h\<close>, the value \<open>v\<close> holds the JSON value \<open>j\<close>, object by
  object.
\<close>

inductive rep :: "store \<Rightarrow> pyval \<Rightarrow> json \<Rightarrow> bool" for h :: store where
  rep_None: "rep h VNone JNull"
| rep_Bool: "rep h (VBool b) (JBool b)"
| rep_Int: "rep h (VInt i) (JInt i)"
| rep_Float: "rep h (VFloat f) (JFloat f)"
| rep_Str: "rep h (VStr s) (JStr s)"
| rep_List: "deref h a = Some (OList vs) \<Longrightarrow> list_all2 (rep h) vs js \<Longrightarrow>
     rep h (VRef a) (JList js)"
| rep_Dict: "deref h a = Some (ODict kvs) \<Longrightarrow> list_all2 (rel_prod (=) (rep h)) kvs kjs \<Longrightarrow>
     rep h (VRef a) (JDict kjs)"

text \<open>\<open>extends h0 h\<close>: the store \<open>h\<close> still holds every object of \<open>h0\<close>, unchanged.\<close>

definition extends :: "store \<Rightarrow> store \<Rightarrow> bool" where
  "extends h0 h \<longleftrightarrow> length h0 \<le> length h \<and> (\<forall>b < length h0. h ! b = h0 ! b)"

text \<open>
  A store in which one order object, with one customer object, stands twice in the list
  of orders.
\<close>

definition shared_store :: store where
  "shared_store =
     [ODict [(''id'', VStr ''c1'')],
      ODict [(''customer'', VRef 0), (''phone'', VStr ''+380501234567''), (''sum'', VInt 0)],
      OList [VRef 1, VRef 1]]"

definition shared_order :: json where
  "shared_order =
     JDict [(''customer'', JDict [(''id'', JStr ''c1'')]),
            (''phone'', JStr ''+380501234567''), (''sum'', JInt 0)]"

section \<open>The language of the phone pattern\<close>

lemma strip_prefix_iff: "strip_prefix w s = Some s' \<longleftrightarrow> s = w @ s'"
  by (induction w s rule: strip_prefix.induct) auto

lemma rmatch_Lit: "set (rmatch (Lit w) (b, s)) = {(b \<and> w = [], s') | s'. s = w @ s'}"
proof (cases "strip_prefix w s")
  case None
  then have "\<And>s'. s \<noteq> w @ s'" using strip_prefix_iff [of w s] by auto
  with None show ?thesis by simp
next
  case (Some t)
  then have "\<And>s'. s = w @ s' \<longleftrightarrow> s' = t" using strip_prefix_iff [of w s] by auto
  with Some show ?thesis by simp
qed

lemma alts_single: "alts [w] = Lit w"
  by (simp add: alts_def)

lemma alts_Cons: "alts (w # w' # ws) = Alt (Lit w) (alts (w' # ws))"
  by (simp add: alts_def)

lemma rmatch_alts:
  "ws \<noteq> [] \<Longrightarrow>
   set (rmatch (alts ws) (b, s)) = {(b \<and> w = [], s') | w s'. w \<in> set ws \<and> s = w @ s'}"
proof (induction ws rule: induct_list012)
  case 1
  then show ?case by simp
next
  case (2 w)
  show ?case by (auto simp: alts_single rmatch_Lit simp del: rmatch.simps)
next
  case (3 w w' ws)
  then have IH: "set (rmatch (alts (w' # ws)) (b, s)) =
      {(b \<and> v = [], s') | v s'. v \<in> set (w' # ws) \<and> s = v @ s'}" by simp
  show ?case
    unfolding alts_Cons rmatch.simps(3) set_append IH rmatch_Lit by auto
qed

lemma iterate_digits:
  "set (iterate n (rmatch Digit) (b, s)) =
     (if n \<le> length s \<and> list_all is_digit (take n s) then {(b \<and> n = 0, drop n s)} else {})"
proof (induction n arbitrary: b s)
  case 0
  then show ?case by simp
next
  case (Suc n)
  show ?case
  proof (cases s)
    case Nil
    then show ?thesis by simp
  next
    case (Cons c cs)
    then show ?thesis by (simp add: Suc)
  qed
qed

lemma rmatch_Seq_nonempty:
  "rmatch (Seq r1 r2) p \<noteq> [] \<longleftrightarrow> (\<exists>q \<in> set (rmatch r1 p). rmatch r2 q \<noteq> [])"
  by auto

lemma rmatch_NegLookahead:
  "set (rmatch (NegLookahead r) p) = (if set (rmatch r p) = {} then {p} else {})"
  by simp

lemma rmatch_Rep_Digit:
  "set (rmatch (Rep n Digit) (b, s)) =
     (if n \<le> length s \<and> list_all is_digit (take n s) then {(b \<and> n = 0, drop n s)} else {})"
  by (simp only: rmatch.simps iterate_digits)

lemma rmatch_Bol: "set (rmatch Bol (b, s)) = (if b then {(b, s)} else {})"
  by simp

lemma rmatch_Eol: "rmatch Eol (b, s) \<noteq> [] \<longleftrightarrow> s = [] \<or> s = [CHR 0x0A]"
  by simp

lemma rmatch_alts_words:
  assumes "ws \<noteq> []" and "[] \<notin> set ws"
  shows "set (rmatch (alts ws) (b, t)) = {(False, s') | w s'. w \<in> set ws \<and> t = w @ s'}"
proof -
  have "set (rmatch (alts ws) (b, t)) = {(b \<and> w = [], s') | w s'. w \<in> set ws \<and> t = w @ s'}"
    by (rule rmatch_alts [OF assms(1)])
  also have "\<dots> = {(False, s') | w s'. w \<in> set ws \<and> t = w @ s'}"
    using assms(2) by fastforce
  finally show ?thesis .
qed

lemma rmatch_alts_none:
  assumes "ws \<noteq> []"
  shows "set (rmatch (alts ws) (b, t)) = {} \<longleftrightarrow> \<not> (\<exists>r s'. r \<in> set ws \<and> t = r @ s')"
  unfolding rmatch_alts [OF assms] by blast

lemma bex_Bol: "(\<exists>q \<in> set (rmatch Bol (b, s)). P q) \<longleftrightarrow> b \<and> P (b, s)"
  by simp

lemma bex_Lit:
  "p \<noteq> [] \<Longrightarrow> (\<exists>q \<in> set (rmatch (Lit p) (b, s)). P q) \<longleftrightarrow> (\<exists>s1. s = p @ s1 \<and> P (False, s1))"
  unfolding rmatch_Lit by auto

lemma bex_alts:
  "C \<noteq> [] \<Longrightarrow> [] \<notin> set C \<Longrightarrow>
   (\<exists>q \<in> set (rmatch (alts C) (b, t)). P q) \<longleftrightarrow>
   (\<exists>w s2. w \<in> set C \<and> t = w @ s2 \<and> P (False, s2))"
  unfolding rmatch_alts_words by auto

lemma bex_NegLookahead_alts:
  "R \<noteq> [] \<Longrightarrow>
   (\<exists>q \<in> set (rmatch (NegLookahead (alts R)) (b, t)). P q) \<longleftrightarrow>
   (\<not> (\<exists>r s'. r \<in> set R \<and> t = r @ s') \<and> P (b, t))"
  unfolding rmatch_NegLookahead rmatch_alts_none by simp

lemma bex_Rep_Digit:
  "(\<exists>q \<in> set (rmatch (Rep n Digit) (b, t)). P q) \<longleftrightarrow>
   (n \<le> length t \<and> list_all is_digit (take n t) \<and> P (b \<and> n = 0, drop n t))"
  unfolding rmatch_Rep_Digit by auto

lemma phone_shape:
  assumes "C \<noteq> []" and "[] \<notin> set C" and "R \<noteq> []" and "p \<noteq> []"
  shows "re_match (Seq Bol (Seq (Lit p) (Seq (alts C)
           (Seq (NegLookahead (alts R)) (Seq (Rep n Digit) Eol))))) s \<longleftrightarrow>
     (\<exists>s1. s = p @ s1 \<and>
        (\<exists>w s2. w \<in> set C \<and> s1 = w @ s2 \<and>
           \<not> (\<exists>r s'. r \<in> set R \<and> s2 = r @ s') \<and>
           n \<le> length s2 \<and> list_all is_digit (take n s2) \<and>
           (drop n s2 = [] \<or> drop n s2 = [CHR 0x0A])))"
  by (simp only: re_match_def rmatch_Seq_nonempty bex_Bol bex_Lit [OF assms(4)]
      bex_alts [OF assms(1,2)] bex_NegLookahead_alts [OF assms(3)] bex_Rep_Digit
      rmatch_Eol simp_thms)

lemma PHONE_PATTERN_lists:
  "PHONE_PATTERN = Seq Bol (Seq (Lit ''+380'') (Seq (alts operator_codes)
           (Seq (NegLookahead (alts repeated_digits)) (Seq (Rep 7 Digit) Eol))))"
  by (simp add: PHONE_PATTERN_def operator_codes_def repeated_digits_def eval_nat_numeral)

lemma operator_codes_length: "w \<in> set operator_codes \<Longrightarrow> length w = 2"
  by (auto simp: operator_codes_def)

lemma repeated_digits_length: "r \<in> set repeated_digits \<Longrightarrow> length r = 7"
  by (auto simp: repeated_digits_def)

lemma phone_pattern_shape:
  "re_match PHONE_PATTERN s \<longleftrightarrow>
     (\<exists>s1. s = ''+380'' @ s1 \<and>
        (\<exists>w s2. w \<in> set operator_codes \<and> s1 = w @ s2 \<and>
           \<not> (\<exists>r s'. r \<in> set repeated_digits \<and> s2 = r @ s') \<and>
           7 \<le> length s2 \<and> list_all is_digit (take 7 s2) \<and>
           (drop 7 s2 = [] \<or> drop 7 s2 = [CHR 0x0A])))"
  unfolding PHONE_PATTERN_lists
proof (rule phone_shape)
  show "operator_codes \<noteq> []" by (simp add: operator_codes_def)
  show "[] \<notin> set operator_codes" using operator_codes_length by fastforce
  show "repeated_digits \<noteq> []" by (simp add: repeated_digits_def)
  show "''+380'' \<noteq> []" by simp
qed

lemma plan_number_parts:
  "plan_number s \<longleftrightarrow>
     (\<exists>w d. s = ''+380'' @ w @ d \<and> w \<in> set operator_codes \<and> length d = 7 \<and>
        list_all is_digit d \<and> d \<notin> set repeated_digits)"
proof
  assume p: "plan_number s"
  then have len: "length s = 13" by (simp add: plan_number_def)
  have "take 2 (drop 4 s) @ drop 2 (drop 4 s) = drop 4 s"
    by (rule append_take_drop_id)
  then have "take 2 (drop 4 s) @ drop 6 s = drop 4 s"
    by simp
  then have "take 4 s @ take 2 (drop 4 s) @ drop 6 s = take 4 s @ drop 4 s"
    by (rule arg_cong)
  then have "s = take 4 s @ take 2 (drop 4 s) @ drop 6 s"
    by simp
  with p len show "\<exists>w d. s = ''+380'' @ w @ d \<and> w \<in> set operator_codes \<and> length d = 7 \<and>
        list_all is_digit d \<and> d \<notin> set repeated_digits"
    by (intro exI [of _ "take 2 (drop 4 s)"] exI [of _ "drop 6 s"])
       (simp add: plan_number_def)
next
  assume "\<exists>w d. s = ''+380'' @ w @ d \<and> w \<in> set operator_codes \<and> length d = 7 \<and>
        list_all is_digit d \<and> d \<notin> set repeated_digits"
  then obtain w d where s: "s = ''+380'' @ w @ d" and w: "w \<in> set operator_codes"
    and d: "length d = 7" "list_all is_digit d" "d \<notin> set repeated_digits" by blast
  from operator_codes_length [OF w] have lw: "length w = 2" .
  show "plan_number s"
    using w d lw by (simp add: plan_number_def s)
qed

lemma phone_pattern_language:
  "re_match PHONE_PATTERN s \<longleftrightarrow>
     plan_number s \<or> (\<exists>t. s = t @ [CHR 0x0A] \<and> plan_number t)"
proof
  assume "re_match PHONE_PATTERN s"
  then obtain w s2 where s: "s = ''+380'' @ w @ s2" and w: "w \<in> set operator_codes"
    and nr: "\<And>r s'. r \<in> set repeated_digits \<Longrightarrow> s2 \<noteq> r @ s'"
    and len: "7 \<le> length s2" and dig: "list_all is_digit (take 7 s2)"
    and tl: "drop 7 s2 = [] \<or> drop 7 s2 = [CHR 0x0A]"
    unfolding phone_pattern_shape by blast
  define d where "d = take 7 s2"
  have s2: "s2 = d @ drop 7 s2" by (simp add: d_def)
  have ld: "length d = 7" using len by (simp add: d_def)
  have dn: "d \<notin> set repeated_digits" using nr [of d "drop 7 s2"] s2 by auto
  have pn: "plan_number (''+380'' @ w @ d)"
    unfolding plan_number_parts using w ld dig dn d_def by blast
  from tl show "plan_number s \<or> (\<exists>t. s = t @ [CHR 0x0A] \<and> plan_number t)"
  proof
    assume "drop 7 s2 = []"
    with s2 have "s2 = d" by simp
    with pn s show ?thesis by simp
  next
    assume "drop 7 s2 = [CHR 0x0A]"
    with s2 have "s2 = d @ [CHR 0x0A]" by simp
    with s have "s = (''+380'' @ w @ d) @ [CHR 0x0A]" by simp
    with pn show ?thesis by blast
  qed
next
  assume "plan_number s \<or> (\<exists>t. s = t @ [CHR 0x0A] \<and> plan_number t)"
  then obtain t e where st: "s = t @ e" and e: "e = [] \<or> e = [CHR 0x0A]"
    and pt: "plan_number t"
    by (metis append_Nil2)
  from pt obtain w d where t: "t = ''+380'' @ w @ d" and w: "w \<in> set operator_codes"
    and ld: "length d = 7" and dig: "list_all is_digit d"
    and dn: "d \<notin> set repeated_digits"
    unfolding plan_number_parts by blast
  have nr: "\<not> (\<exists>r s'. r \<in> set repeated_digits \<and> d @ e = r @ s')"
  proof
    assume "\<exists>r s'. r \<in> set repeated_digits \<and> d @ e = r @ s'"
    then obtain r s' where r: "r \<in> set repeated_digits" and eq: "d @ e = r @ s'" by blast
    from repeated_digits_length [OF r] ld have "length d = length r" by simp
    with eq have "d = r" by simp
    with r dn show False by simp
  qed
  have "s = ''+380'' @ w @ (d @ e)" by (simp add: st t)
  moreover have "7 \<le> length (d @ e)" using ld by simp
  moreover have "list_all is_digit (take 7 (d @ e))" using ld dig by simp
  moreover have "drop 7 (d @ e) = [] \<or> drop 7 (d @ e) = [CHR 0x0A]" using ld e by simp
  ultimately show "re_match PHONE_PATTERN s"
    unfolding phone_pattern_shape using w nr by blast
qed

lemma phone_examples:
  "re_match PHONE_PATTERN ''+380501234567''"
  "\<not> re_match PHONE_PATTERN ''+380501111111''"
  "\<not> re_match PHONE_PATTERN ''+380001234567''"
  "\<not> re_match PHONE_PATTERN ''380501234567''"
  by code_simp+

text \<open>
  Claim C2, at a phone with a newline after the last digit: \<^verbatim>\<open>$\<close> also holds just before
  a final newline, so \<^verbatim>\<open>PHONE_PATTERN.match\<close> accepts the text although it is not the
  prefix, an operator code and seven digits and nothing else.
\<close>

theorem trailing_newline_accepted:
  "re_match PHONE_PATTERN (''+380501234567'' @ [CHR 0x0A]) \<and>
   \<not> plan_number (''+380501234567'' @ [CHR 0x0A]) \<and>
   plan_number ''+380501234567''"
proof (intro conjI)
  show "re_match PHONE_PATTERN (''+380501234567'' @ [CHR 0x0A])"
    by code_simp
  show "\<not> plan_number (''+380501234567'' @ [CHR 0x0A])"
    by (simp add: plan_number_def)
  show "plan_number ''+380501234567''"
    by (simp add: plan_number_def operator_codes_def repeated_digits_def is_digit_def
        eval_nat_numeral)
qed

section \<open>The loop of the summary\<close>

lemma summarize_loop_step:
  "summarize_loop (order # orders) ps iv nc np z =
     (case analyse order of
        Inl e \<Rightarrow> Inl e
      | Inr v \<Rightarrow>
          (case tally v (ps, iv, nc, np, z) of
             (ps', iv', nc', np', z') \<Rightarrow> summarize_loop orders ps' iv' nc' np' z'))"
  by (simp add: analyse_def analyse_view_def split: sum.splits json.splits)

lemma analyse_NoClient:
  assumes "analyse order = Inr NoClient"
  shows "lacks_customer order" "\<not> lacks_phone order" "\<not> considered order"
    "phone_entries order = []"
  using assms
  by (auto simp: analyse_def analyse_view_def lacks_customer_def lacks_phone_def
      considered_def phone_entries_def field_present_def
      split: sum.splits json.splits if_splits)

lemma analyse_NoPhone:
  assumes "analyse order = Inr NoPhone"
  shows "\<not> lacks_customer order" "lacks_phone order" "\<not> considered order"
    "phone_entries order = []"
  using assms
  by (auto simp: analyse_def analyse_view_def lacks_customer_def lacks_phone_def
      considered_def phone_entries_def field_present_def
      split: sum.splits json.splits if_splits)

lemma analyse_WithPhone:
  assumes "analyse order = Inr (WithPhone p b)"
  shows "\<not> lacks_customer order" "\<not> lacks_phone order" "considered order"
    "phone_entries order = [p]" "zero_sum order = b"
  using assms
  by (auto simp: analyse_def analyse_view_def lacks_customer_def lacks_phone_def
      considered_def phone_entries_def field_present_def zero_sum_def
      split: sum.splits json.splits if_splits)

lemma summarize_loop_result:
  "summarize_loop orders ps iv nc np z = Inr (ps', iv', nc', np', z') \<Longrightarrow>
     ps' = ps @ considered_phones orders \<and>
     iv' = iv @ filter (\<lambda>p. \<not> re_match PHONE_PATTERN p) (considered_phones orders) \<and>
     nc' = nc + length (filter lacks_customer orders) \<and>
     np' = np + length (filter lacks_phone orders) \<and>
     z' = z + length (filter (\<lambda>x. considered x \<and> zero_sum x) orders)"
proof (induction orders arbitrary: ps iv nc np z)
  case Nil
  then show ?case by (simp add: considered_phones_def)
next
  case (Cons order orders)
  from Cons.prems obtain v where v: "analyse order = Inr v"
    by (auto simp: summarize_loop_step simp del: summarize_loop.simps split: sum.splits)
  show ?case
  proof (cases v)
    case NoClient
    with v Cons.prems have
      "summarize_loop orders ps iv (nc + 1) np z = Inr (ps', iv', nc', np', z')"
      by (simp add: summarize_loop_step del: summarize_loop.simps)
    from Cons.IH [OF this] analyse_NoClient [OF v [unfolded NoClient]]
    show ?thesis by (simp add: considered_phones_def)
  next
    case NoPhone
    with v Cons.prems have
      "summarize_loop orders ps iv nc (np + 1) z = Inr (ps', iv', nc', np', z')"
      by (simp add: summarize_loop_step del: summarize_loop.simps)
    from Cons.IH [OF this] analyse_NoPhone [OF v [unfolded NoPhone]]
    show ?thesis by (simp add: considered_phones_def)
  next
    case (WithPhone p b)
    with v Cons.prems have
      "summarize_loop orders (ps @ [p])
         (if \<not> re_match PHONE_PATTERN p then iv @ [p] else iv) nc np
         (if b then z + 1 else z) = Inr (ps', iv', nc', np', z')"
      by (simp add: summarize_loop_step del: summarize_loop.simps)
    from Cons.IH [OF this] analyse_WithPhone [OF v [unfolded WithPhone]]
    show ?thesis by (simp add: considered_phones_def)
  qed
qed

lemma orders_split:
  "\<forall>x \<in> set orders. \<exists>v. analyse x = Inr v \<Longrightarrow>
   length (filter lacks_customer orders) + length (filter lacks_phone orders)
     + length (considered_phones orders) = length orders \<and>
   length (considered_phones orders) = length (filter considered orders)"
proof (induction orders)
  case Nil
  then show ?case by (simp add: considered_phones_def)
next
  case (Cons order orders)
  then obtain v where v: "analyse order = Inr v" by auto
  from Cons have IH: "length (filter lacks_customer orders) + length (filter lacks_phone orders)
     + length (considered_phones orders) = length orders \<and>
   length (considered_phones orders) = length (filter considered orders)" by simp
  show ?case
  proof (cases v)
    case NoClient
    from IH analyse_NoClient [OF v [unfolded NoClient]]
    show ?thesis by (simp add: considered_phones_def)
  next
    case NoPhone
    from IH analyse_NoPhone [OF v [unfolded NoPhone]]
    show ?thesis by (simp add: considered_phones_def)
  next
    case (WithPhone p b)
    from IH analyse_WithPhone [OF v [unfolded WithPhone]]
    show ?thesis by (simp add: considered_phones_def)
  qed
qed

lemma summarize_loop_returns:
  "(\<exists>res. summarize_loop orders ps iv nc np z = Inr res) \<longleftrightarrow>
   (\<forall>x \<in> set orders. \<exists>v. analyse x = Inr v)"
proof (induction orders arbitrary: ps iv nc np z)
  case Nil
  then show ?case by simp
next
  case (Cons order orders)
  show ?case
  proof (cases "analyse order")
    case (Inl e)
    then show ?thesis by (auto simp: summarize_loop_step simp del: summarize_loop.simps)
  next
    case (Inr v)
    obtain a b c d e where t: "tally v (ps, iv, nc, np, z) = (a, b, c, d, e)"
      by (metis prod_cases5)
    show ?thesis using Inr t Cons.IH [of a b c d e]
      by (simp add: summarize_loop_step del: summarize_loop.simps)
  qed
qed

lemma analyse_view_typed:
  "phone_typed kvs \<Longrightarrow> \<exists>v. analyse_view (JDict kvs) = Inr v"
  by (auto simp: analyse_view_def phone_typed_def get_def split: option.splits json.splits)

lemma analyse_order_record:
  assumes "order_record x"
  shows "\<exists>v. analyse x = Inr v"
proof (cases x)
  case (JDict kvs)
  with assms show ?thesis
    using analyse_view_typed
    by (auto simp: analyse_def unwrap_def get_def split: option.splits json.splits if_splits)
qed (use assms in simp_all)

lemma summarize_returns:
  "(\<exists>r. summarize orders = Inr r) \<longleftrightarrow> (\<forall>x \<in> set orders. \<exists>v. analyse x = Inr v)"
  using summarize_loop_returns [of orders "[]" "[]" 0 0 0]
  by (auto simp: summarize_def Let_def split: sum.splits prod.splits)

lemma summarize_fields:
  assumes "summarize orders = Inr r"
  shows "total r = length orders"
    and "no_client r = length (filter lacks_customer orders)"
    and "no_phone r = length (filter lacks_phone orders)"
    and "invalid r = sort (remdups (filter (\<lambda>p. \<not> re_match PHONE_PATTERN p) (considered_phones orders)))"
    and "inv_count r = length (filter (\<lambda>p. \<not> re_match PHONE_PATTERN p) (considered_phones orders))"
    and "zero r = length (filter (\<lambda>x. considered x \<and> zero_sum x) orders)"
    and "unique r = length (Counter (considered_phones orders))"
    and "dup r = filter (\<lambda>(p, c). c > 1) (Counter (considered_phones orders))"
    and "\<exists>iv nc np z. summarize_loop orders [] [] 0 0 0 = Inr (considered_phones orders, iv, nc, np, z)"
proof -
  from assms obtain ps iv nc np z
    where l: "summarize_loop orders [] [] 0 0 0 = Inr (ps, iv, nc, np, z)"
    by (auto simp: summarize_def split: sum.splits)
  note inv = summarize_loop_result [OF l]
  from assms l have r: "r = \<lparr> total = length orders, no_client = nc, no_phone = np,
      invalid = sort (remdups iv), inv_count = length iv, zero = z,
      unique = length (Counter ps), dup = filter (\<lambda>(p, c). c > 1) (Counter ps) \<rparr>"
    by (simp add: summarize_def Let_def)
  show "total r = length orders" by (simp add: r)
  show "no_client r = length (filter lacks_customer orders)" using inv by (simp add: r)
  show "no_phone r = length (filter lacks_phone orders)" using inv by (simp add: r)
  show "invalid r = sort (remdups (filter (\<lambda>p. \<not> re_match PHONE_PATTERN p) (considered_phones orders)))"
    using inv by (simp add: r)
  show "inv_count r = length (filter (\<lambda>p. \<not> re_match PHONE_PATTERN p) (considered_phones orders))"
    using inv by (simp add: r)
  show "zero r = length (filter (\<lambda>x. considered x \<and> zero_sum x) orders)"
    using inv by (simp add: r)
  show "unique r = length (Counter (considered_phones orders))" using inv by (simp add: r)
  show "dup r = filter (\<lambda>(p, c). c > 1) (Counter (considered_phones orders))"
    using inv by (simp add: r)
  show "\<exists>iv nc np z. summarize_loop orders [] [] 0 0 0 = Inr (considered_phones orders, iv, nc, np, z)"
    using inv l by simp
qed

lemma summarize_returns_on_records:
  "list_all order_record orders \<Longrightarrow> \<exists>r. summarize orders = Inr r"
  by (simp add: summarize_returns list_all_iff analyse_order_record)

section \<open>Properties of the summary\<close>

lemma example_phone_matches: "re_match PHONE_PATTERN ''+380501234567''"
  by code_simp

text \<open>
  Claim C3. Whenever \<^verbatim>\<open>summarize\<close> returns a record, \<open>no_client + no_phone\<close> plus the
  number of phones considered equals \<open>total\<close>, the length of the input; the phones
  considered are the list \<^verbatim>\<open>phones\<close> of the loop, one entry per order that has both a
  customer and a phone after unwrapping. On orders of the data model (records whose
  phone is a string or absent) \<^verbatim>\<open>summarize\<close> does return.
\<close>

theorem summarize_counts_partition:
  "(list_all order_record orders \<longrightarrow> (\<exists>r. summarize orders = Inr r)) \<and>
   (\<forall>r. summarize orders = Inr r \<longrightarrow>
      total r = length orders \<and>
      no_client r + no_phone r + length (considered_phones orders) = total r \<and>
      length (considered_phones orders) = length (filter considered orders) \<and>
      (\<exists>iv nc np z. summarize_loop orders [] [] 0 0 0 =
         Inr (considered_phones orders, iv, nc, np, z)))"
proof (intro conjI allI impI)
  assume "list_all order_record orders"
  then have "\<forall>x \<in> set orders. \<exists>v. analyse x = Inr v"
    by (simp add: list_all_iff analyse_order_record)
  then show "\<exists>r. summarize orders = Inr r" by (simp add: summarize_returns)
next
  fix r assume r: "summarize orders = Inr r"
  then have ok: "\<forall>x \<in> set orders. \<exists>v. analyse x = Inr v"
    using summarize_returns by blast
  show "total r = length orders" by (rule summarize_fields(1) [OF r])
  show "no_client r + no_phone r + length (considered_phones orders) = total r"
    using orders_split [OF ok] summarize_fields(1,2,3) [OF r] by simp
  show "length (considered_phones orders) = length (filter considered orders)"
    using orders_split [OF ok] by simp
  show "\<exists>iv nc np z. summarize_loop orders [] [] 0 0 0 =
         Inr (considered_phones orders, iv, nc, np, z)"
    by (rule summarize_fields(9) [OF r])
qed

theorem summarize_counts_partition_witness:
  "list_all order_record (example_orders some_customer) \<and>
   summarize (example_orders some_customer) =
     Inr \<lparr> total = 4, no_client = 1, no_phone = 1, invalid = [], inv_count = 0,
           zero = 1, unique = 1, dup = [(''+380501234567'', 2)] \<rparr> \<and>
   (1::nat) + 1 + length (considered_phones (example_orders some_customer)) = 4 \<and>
   length (considered_phones (example_orders some_customer)) =
     length (filter considered (example_orders some_customer))"
proof -
  let ?r = "\<lparr> total = 4, no_client = 1, no_phone = 1, invalid = [], inv_count = 0,
           zero = 1, unique = 1, dup = [(''+380501234567'', 2)] \<rparr>"
  have r: "summarize (example_orders some_customer) = Inr ?r"
    by (simp add: example_orders_def some_customer_def summarize_def unwrap_def get_def
        Counter_def example_phone_matches)
  have wf: "list_all order_record (example_orders some_customer)"
    by (simp add: example_orders_def phone_typed_def)
  from summarize_counts_partition [of "example_orders some_customer"] r
  have "no_client ?r + no_phone ?r + length (considered_phones (example_orders some_customer))
          = total ?r"
    and "length (considered_phones (example_orders some_customer)) =
     length (filter considered (example_orders some_customer))"
    by blast+
  with wf r show ?thesis by simp
qed

text \<open>
  Claim C4, as stated, at its own input: a customer written \<^verbatim>\<open>{}\<close> is an empty dict,
  which \<^verbatim>\<open>not od.get('customer')\<close> takes for no customer, so all four orders count as
  \<open>no_client\<close>.
\<close>

theorem example_orders_empty_customer:
  "summarize (example_orders (JDict [])) =
     Inr \<lparr> total = 4, no_client = 4, no_phone = 0, invalid = [], inv_count = 0,
           zero = 0, unique = 0, dup = [] \<rparr> \<and>
   summarize (example_orders (JDict [])) \<noteq>
     Inr \<lparr> total = 4, no_client = 1, no_phone = 1, invalid = [], inv_count = 0,
           zero = 1, unique = 1, dup = [(''+380501234567'', 2)] \<rparr>"
  by (simp add: example_orders_def summarize_def unwrap_def get_def Counter_def)

text \<open>
  Claim C4, amended. With any truthy customer value (a non-empty record) in place of the
  empty one, the four example orders give \<open>no_client = 1\<close>, \<open>no_phone = 1\<close>, \<open>total = 4\<close>,
  \<open>unique = 1\<close>, the phone twice in \<open>dup\<close>, \<open>zero = 1\<close> and \<open>inv_count = 0\<close>.
\<close>

theorem example_orders_summary:
  "truthy customer \<Longrightarrow>
   summarize (example_orders customer) =
     Inr \<lparr> total = 4, no_client = 1, no_phone = 1, invalid = [], inv_count = 0,
           zero = 1, unique = 1, dup = [(''+380501234567'', 2)] \<rparr>"
  by (simp add: example_orders_def summarize_def unwrap_def get_def Counter_def
      example_phone_matches)

theorem example_orders_summary_witness:
  "truthy some_customer \<and>
   summarize (example_orders some_customer) =
     Inr \<lparr> total = 4, no_client = 1, no_phone = 1, invalid = [], inv_count = 0,
           zero = 1, unique = 1, dup = [(''+380501234567'', 2)] \<rparr>"
proof -
  have h: "truthy some_customer" by (simp add: some_customer_def)
  from h example_orders_summary [OF h] show ?thesis by (rule conjI)
qed

text \<open>
  What the fields \<open>invalid\<close> and \<open>inv_count\<close> hold, in terms of the pattern: \<open>invalid\<close> is
  sorted, has no duplicates and holds exactly the considered phones that
  \<^verbatim>\<open>PHONE_PATTERN.match\<close> rejects, and \<open>inv_count\<close> counts every rejected occurrence.
\<close>

lemma summarize_invalid_by_pattern:
  "(list_all order_record orders \<longrightarrow> (\<exists>r. summarize orders = Inr r)) \<and>
   (\<forall>r. summarize orders = Inr r \<longrightarrow>
      sorted (invalid r) \<and> distinct (invalid r) \<and>
      set (invalid r) = {p \<in> set (considered_phones orders). \<not> re_match PHONE_PATTERN p} \<and>
      inv_count r =
        length (filter (\<lambda>p. \<not> re_match PHONE_PATTERN p) (considered_phones orders)))"
proof (intro conjI allI impI)
  assume "list_all order_record orders"
  then show "\<exists>r. summarize orders = Inr r" by (rule summarize_returns_on_records)
next
  fix r assume r: "summarize orders = Inr r"
  note iv = summarize_fields(4) [OF r]
  show "sorted (invalid r)" by (simp add: iv)
  show "distinct (invalid r)" by (simp add: iv)
  show "set (invalid r) = {p \<in> set (considered_phones orders). \<not> re_match PHONE_PATTERN p}"
    by (simp add: iv)
  show "inv_count r =
        length (filter (\<lambda>p. \<not> re_match PHONE_PATTERN p) (considered_phones orders))"
    by (rule summarize_fields(5) [OF r])
qed

lemma misdialled_phones:
  "considered_phones misdialled_orders = [''abc'', ''12'', ''+380501234567'', ''abc'']"
  by (simp add: misdialled_orders_def some_customer_def considered_phones_def
      phone_entries_def considered_def field_present_def unwrap_def get_def)

lemma misdialled_abc: "\<not> re_match PHONE_PATTERN ''abc''"
  by code_simp

lemma misdialled_12: "\<not> re_match PHONE_PATTERN ''12''"
  by code_simp

lemma misdialled_sorted: "sort (remdups [''abc'', ''12'', ''abc'']) = [''12'', ''abc'']"
  by code_simp

lemma misdialled_summary:
  "summarize misdialled_orders =
     Inr \<lparr> total = 4, no_client = 0, no_phone = 0, invalid = [''12'', ''abc''],
           inv_count = 3, zero = 4, unique = 3, dup = [(''abc'', 2)] \<rparr>"
  by (simp add: misdialled_orders_def some_customer_def summarize_def unwrap_def get_def
      Counter_def example_phone_matches misdialled_abc misdialled_12 misdialled_sorted)

lemma misdialled_invalid:
  "list_all order_record misdialled_orders \<and>
   summarize misdialled_orders =
     Inr \<lparr> total = 4, no_client = 0, no_phone = 0, invalid = [''12'', ''abc''],
           inv_count = 3, zero = 4, unique = 3, dup = [(''abc'', 2)] \<rparr> \<and>
   sorted [''12'', ''abc''] \<and> distinct [''12'', ''abc''] \<and>
   set [''12'', ''abc''] =
     {p \<in> set [''abc'', ''12'', ''+380501234567'', ''abc'']. \<not> re_match PHONE_PATTERN p} \<and>
   (3::nat) = length (filter (\<lambda>p. \<not> re_match PHONE_PATTERN p)
                 [''abc'', ''12'', ''+380501234567'', ''abc''])"
proof -
  have wf: "list_all order_record misdialled_orders"
    by (simp add: misdialled_orders_def phone_typed_def)
  from summarize_invalid_by_pattern [of misdialled_orders] misdialled_summary
  have "sorted [''12'', ''abc''] \<and> distinct [''12'', ''abc''] \<and>
   set [''12'', ''abc''] =
     {p \<in> set (considered_phones misdialled_orders). \<not> re_match PHONE_PATTERN p} \<and>
   (3::nat) = length (filter (\<lambda>p. \<not> re_match PHONE_PATTERN p)
                 (considered_phones misdialled_orders))"
    by fastforce
  with wf misdialled_summary show ?thesis by (simp only: misdialled_phones) 
qed

text \<open>
  In terms of the specification's validity the same holds as long as no considered phone
  is a number of the plan followed by a newline.
\<close>

lemma summarize_invalid_by_plan:
  assumes r: "summarize orders = Inr r"
    and nl: "\<forall>p \<in> set (considered_phones orders).
               \<not> (\<exists>t. p = t @ [CHR 0x0A] \<and> plan_number t)"
  shows "sorted (invalid r) \<and> distinct (invalid r) \<and>
     set (invalid r) = {p \<in> set (considered_phones orders). \<not> plan_number p} \<and>
     inv_count r = length (filter (\<lambda>p. \<not> plan_number p) (considered_phones orders))"
proof -
  have eq: "filter (\<lambda>p. \<not> re_match PHONE_PATTERN p) (considered_phones orders) =
      filter (\<lambda>p. \<not> plan_number p) (considered_phones orders)"
    using nl by (intro filter_cong refl) (auto simp: phone_pattern_language)
  note iv = summarize_fields(4) [OF r, unfolded eq]
  have "inv_count r = length (filter (\<lambda>p. \<not> plan_number p) (considered_phones orders))"
    using summarize_fields(5) [OF r] by (simp only: eq)
  moreover have "set (invalid r) = {p \<in> set (considered_phones orders). \<not> plan_number p}"
    by (simp add: iv)
  moreover have "sorted (invalid r)" "distinct (invalid r)" by (simp_all add: iv)
  ultimately show ?thesis by blast
qed

lemma newline_phone_matches: "re_match PHONE_PATTERN newline_phone"
  unfolding newline_phone_def by code_simp

lemma newline_phone_not_plan: "\<not> plan_number newline_phone"
  by (simp add: plan_number_def newline_phone_def)

text \<open>
  Claim C6, at an order whose phone is a number of the plan followed by a newline. The
  phone is considered and is not valid in the specification's sense, so it is an invalid
  phone that was encountered; but \<^verbatim>\<open>PHONE_PATTERN.match\<close> accepts it (the \<^verbatim>\<open>$\<close> of claim C2),
  and \<open>invalid\<close> stays empty and \<open>inv_count\<close> stays 0.
\<close>

theorem newline_phone_not_reported:
  "order_record newline_order \<and>
   considered_phones [newline_order] = [newline_phone] \<and>
   \<not> plan_number newline_phone \<and>
   summarize [newline_order] =
     Inr \<lparr> total = 1, no_client = 0, no_phone = 0, invalid = [], inv_count = 0,
           zero = 0, unique = 1, dup = [] \<rparr>"
proof (intro conjI)
  show "order_record newline_order"
    by (simp add: newline_order_def phone_typed_def)
  have ne: "newline_phone \<noteq> []" by (simp add: newline_phone_def)
  show "considered_phones [newline_order] = [newline_phone]"
    using ne
    by (simp add: newline_order_def some_customer_def considered_phones_def
        phone_entries_def considered_def field_present_def unwrap_def get_def)
  show "\<not> plan_number newline_phone" by (rule newline_phone_not_plan)
  show "summarize [newline_order] =
     Inr \<lparr> total = 1, no_client = 0, no_phone = 0, invalid = [], inv_count = 0,
           zero = 0, unique = 1, dup = [] \<rparr>"
    using ne newline_phone_matches
    by (simp add: newline_order_def some_customer_def summarize_def unwrap_def get_def
        Counter_def)
qed

text \<open>
  Claim C7. The counter \<open>zero\<close> of the returned record is the number of orders that have
  both a customer and a phone after unwrapping and whose \<open>sum\<close> (0 when the key is
  missing) equals 0; an order without a customer or without a phone adds nothing to it,
  whatever its sum.
\<close>

theorem summarize_zero_only_considered:
  "(list_all order_record orders \<longrightarrow> (\<exists>r. summarize orders = Inr r)) \<and>
   (\<forall>r. summarize orders = Inr r \<longrightarrow>
      zero r = length (filter (\<lambda>x. considered x \<and> zero_sum x) orders) \<and>
      zero r = length (filter zero_sum (filter considered orders)) \<and>
      zero r \<le> length (filter considered orders))"
proof (intro conjI allI impI)
  assume "list_all order_record orders"
  then show "\<exists>r. summarize orders = Inr r" by (rule summarize_returns_on_records)
next
  fix r assume r: "summarize orders = Inr r"
  show z: "zero r = length (filter (\<lambda>x. considered x \<and> zero_sum x) orders)"
    by (rule summarize_fields(6) [OF r])
  have f: "filter zero_sum (filter considered orders) =
      filter (\<lambda>x. considered x \<and> zero_sum x) orders"
    by simp
  show z': "zero r = length (filter zero_sum (filter considered orders))"
    by (simp only: z f)
  show "zero r \<le> length (filter considered orders)"
    unfolding z' by (rule length_filter_le)
qed

lemma free_orders_summary:
  "summarize free_orders =
     Inr \<lparr> total = 5, no_client = 1, no_phone = 1, invalid = [], inv_count = 0,
           zero = 2, unique = 2, dup = [(''+380671234567'', 2)] \<rparr>"
proof -
  have "re_match PHONE_PATTERN ''+380671234567''" by code_simp
  then show ?thesis
    by (simp add: free_orders_def some_customer_def summarize_def unwrap_def get_def
        Counter_def example_phone_matches)
qed

lemma free_orders_considered:
  "filter (\<lambda>x. considered x \<and> zero_sum x) free_orders =
     [JDict [(''customer'', some_customer), (''phone'', JStr ''+380501234567''),
             (''sum'', JInt 0)],
      JDict [(''customer'', some_customer), (''phone'', JStr ''+380671234567'')]]"
  by (simp add: free_orders_def some_customer_def considered_def zero_sum_def
      field_present_def unwrap_def get_def)

theorem summarize_zero_only_considered_witness:
  "list_all order_record free_orders \<and>
   summarize free_orders =
     Inr \<lparr> total = 5, no_client = 1, no_phone = 1, invalid = [], inv_count = 0,
           zero = 2, unique = 2, dup = [(''+380671234567'', 2)] \<rparr> \<and>
   (2::nat) = length (filter (\<lambda>x. considered x \<and> zero_sum x) free_orders) \<and>
   zero_sum (free_orders ! 0) \<and> \<not> considered (free_orders ! 0) \<and>
   zero_sum (free_orders ! 1) \<and> \<not> considered (free_orders ! 1)"
proof -
  have wf: "list_all order_record free_orders"
    by (simp add: free_orders_def phone_typed_def)
  from summarize_zero_only_considered [of free_orders] free_orders_summary
  have "(2::nat) = length (filter (\<lambda>x. considered x \<and> zero_sum x) free_orders)"
    by fastforce
  moreover have "zero_sum (free_orders ! 0) \<and> \<not> considered (free_orders ! 0) \<and>
    zero_sum (free_orders ! 1) \<and> \<not> considered (free_orders ! 1)"
    by (simp add: free_orders_def some_customer_def considered_def zero_sum_def
        field_present_def unwrap_def get_def)
  ultimately show ?thesis using wf free_orders_summary by simp
qed

text \<open>
  Claim C8, as stated, at an order whose \<open>order\<close> field is present and empty: the loop
  analyses the record itself and counts its phone, where the value of the field, an empty
  record, would count as an order without customer.
\<close>

theorem empty_wrapper_not_preferred:
  "order_field empty_wrapper_order = Some (JDict []) \<and>
   unwrap empty_wrapper_order = Inr empty_wrapper_order \<and>
   unwrap empty_wrapper_order \<noteq> Inr (unwrap_if_present empty_wrapper_order) \<and>
   analyse empty_wrapper_order = Inr (WithPhone ''+380501234567'' True) \<and>
   analyse_view (unwrap_if_present empty_wrapper_order) = Inr NoClient \<and>
   summarize [empty_wrapper_order] =
     Inr \<lparr> total = 1, no_client = 0, no_phone = 0, invalid = [], inv_count = 0,
           zero = 1, unique = 1, dup = [] \<rparr>"
  by (simp add: empty_wrapper_order_def some_customer_def order_field_def
      unwrap_if_present_def unwrap_def get_def analyse_def analyse_view_def
      summarize_def Counter_def example_phone_matches)

text \<open>
  Claim C8, amended. For every order record, the loop of \<^verbatim>\<open>summarize\<close> analyses the
  unwrapped view: the value of the \<open>order\<close> field when that field is present and truthy
  (not null, not an empty record), and the record itself otherwise.
\<close>

theorem summarize_analyses_truthy_wrapper:
  "unwrap (JDict kvs) = Inr (unwrap_if_truthy (JDict kvs)) \<and>
   analyse (JDict kvs) = analyse_view (unwrap_if_truthy (JDict kvs)) \<and>
   summarize_loop (JDict kvs # orders) ps iv nc np z =
     (case analyse_view (unwrap_if_truthy (JDict kvs)) of
        Inl e \<Rightarrow> Inl e
      | Inr v \<Rightarrow>
          (case tally v (ps, iv, nc, np, z) of
             (ps', iv', nc', np', z') \<Rightarrow> summarize_loop orders ps' iv' nc' np' z'))"
proof -
  have u: "unwrap (JDict kvs) = Inr (unwrap_if_truthy (JDict kvs))"
    by (simp add: unwrap_def unwrap_if_truthy_def order_field_def get_def
        split: option.splits)
  then have a: "analyse (JDict kvs) = analyse_view (unwrap_if_truthy (JDict kvs))"
    by (simp add: analyse_def)
  show ?thesis
    using u a summarize_loop_step [of "JDict kvs" orders ps iv nc np z] by simp
qed

theorem summarize_analyses_truthy_wrapper_witness:
  "unwrap wrapped_order =
     Inr (JDict [(''customer'', some_customer), (''phone'', JNull)]) \<and>
   summarize [wrapped_order] =
     Inr \<lparr> total = 1, no_client = 0, no_phone = 1, invalid = [], inv_count = 0,
           zero = 0, unique = 0, dup = [] \<rparr>"
proof -
  have v: "unwrap_if_truthy wrapped_order =
      JDict [(''customer'', some_customer), (''phone'', JNull)]"
    by (simp add: wrapped_order_def unwrap_if_truthy_def order_field_def)
  have a: "analyse_view (JDict [(''customer'', some_customer), (''phone'', JNull)]) =
      Inr NoPhone"
    by (simp add: analyse_view_def get_def some_customer_def)
  from summarize_analyses_truthy_wrapper
    [of "[(''id'', JStr ''w1''),
          (''order'', JDict [(''customer'', some_customer), (''phone'', JNull)])]"
        "[]" "[]" "[]" 0 0 0]
  have "unwrap wrapped_order = Inr (unwrap_if_truthy wrapped_order)"
    and "summarize_loop [wrapped_order] [] [] 0 0 0 =
      (case analyse_view (unwrap_if_truthy wrapped_order) of
        Inl e \<Rightarrow> Inl e
      | Inr v \<Rightarrow>
          (case tally v ([], [], 0, 0, 0) of
             (ps', iv', nc', np', z') \<Rightarrow> summarize_loop [] ps' iv' nc' np' z'))"
    unfolding wrapped_order_def by blast+
  then show ?thesis
    by (simp add: v a summarize_def Counter_def del: summarize_loop.simps(2))
qed

section \<open>The loop over the days\<close>

lemma windows_chain:
  "windows cur end = Inr ws \<Longrightarrow> cur \<le> end \<Longrightarrow> chain cur ws end"
proof (induction cur "end" arbitrary: ws rule: windows.induct)
  case (1 cur "end")
  show ?case
  proof (cases "cur < end")
    case False
    with "1.prems" show ?thesis by simp
  next
    case True
    from True "1.prems" obtain t where t: "add_day cur = Inr t"
      by (cases "add_day cur") simp_all
    from t have t_def: "t = cur + day" by (simp add: add_day_def split: if_splits)
    from True "1.prems" t obtain ws' where ws': "windows (min t end) end = Inr ws'"
      and ws: "ws = (cur, min t end) # ws'"
      by (cases "windows (min t end) end") (simp_all add: Let_def)
    have "chain (min t end) ws' end"
      using "1.IH" [OF True t refl ws'] by simp
    with True t_def ws show ?thesis by (simp add: day_def)
  qed
qed

lemma windows_returns:
  "end + day - 1 \<le> datetime_max \<Longrightarrow> \<exists>ws. windows cur end = Inr ws"
proof (induction cur "end" rule: windows.induct)
  case (1 cur "end")
  show ?case
  proof (cases "cur < end")
    case False
    then show ?thesis by simp
  next
    case True
    with "1.prems" have t: "add_day cur = Inr (cur + day)" by (simp add: add_day_def)
    from "1.IH" [OF True t refl "1.prems"] obtain ws'
      where "windows (min (cur + day) end) end = Inr ws'" by blast
    with True t show ?thesis by (simp add: Let_def)
  qed
qed

lemma fetch_loop_collect:
  "windows cur end = Inr ws \<Longrightarrow> fetch_loop g cur end acc = collect g ws acc"
proof (induction cur "end" arbitrary: ws acc rule: windows.induct)
  case (1 cur "end")
  show ?case
  proof (cases "cur < end")
    case False
    with "1.prems" show ?thesis by simp
  next
    case True
    from True "1.prems" obtain t where t: "add_day cur = Inr t"
      by (cases "add_day cur") simp_all
    from True "1.prems" t obtain ws' where ws': "windows (min t end) end = Inr ws'"
      and ws: "ws = (cur, min t end) # ws'"
      by (cases "windows (min t end) end") (simp_all add: Let_def)
    note IH = "1.IH" [OF True t refl ws']
    show ?thesis
      using True t ws IH
      by (subst fetch_loop.simps) (simp add: Let_def split: sum.splits error.splits)
  qed
qed

lemma chain_le: "chain a ws b \<Longrightarrow> a \<le> b"
  by (induction ws arbitrary: a) force+

lemma chain_hd_last:
  "chain a ws b \<Longrightarrow> ws \<noteq> [] \<Longrightarrow> fst (hd ws) = a \<and> snd (last ws) = b"
proof (induction ws arbitrary: a)
  case Nil
  then show ?case by simp
next
  case (Cons w ws)
  obtain c n where w: "w = (c, n)" by (cases w)
  show ?case
  proof (cases ws)
    case Nil
    with Cons.prems w show ?thesis by simp
  next
    case (Cons w' ws')
    with Cons.prems Cons.IH [of n] w show ?thesis by simp
  qed
qed

lemma chain_member:
  "chain a ws b \<Longrightarrow> (c, n) \<in> set ws \<Longrightarrow> c < n \<and> n - c \<le> day \<and> a \<le> c \<and> n \<le> b"
proof (induction ws arbitrary: a)
  case Nil
  then show ?case by simp
next
  case (Cons w ws)
  obtain c' n' where w: "w = (c', n')" by (cases w)
  from Cons.prems w have ch: "chain n' ws b" and hd: "c' = a" "c' < n'" "n' - c' \<le> day"
    by simp_all
  show ?case
  proof (cases "(c, n) = w")
    case True
    with w hd chain_le [OF ch] show ?thesis by simp
  next
    case False
    with Cons.prems have "(c, n) \<in> set ws" by simp
    from Cons.IH [OF ch this] hd show ?thesis by simp
  qed
qed

lemma chain_consecutive:
  "chain a ws b \<Longrightarrow> Suc i < length ws \<Longrightarrow> snd (ws ! i) = fst (ws ! Suc i)"
proof (induction ws arbitrary: a i)
  case Nil
  then show ?case by simp
next
  case (Cons w ws)
  obtain c n where w: "w = (c, n)" by (cases w)
  from Cons.prems w have ch: "chain n ws b" by simp
  show ?case
  proof (cases i)
    case 0
    with Cons.prems have "ws \<noteq> []" by auto
    from chain_hd_last [OF ch this] 0 w show ?thesis by (simp add: hd_conv_nth \<open>ws \<noteq> []\<close>)
  next
    case (Suc k)
    with Cons.prems have "Suc k < length ws" by simp
    from Cons.IH [OF ch this] Suc show ?thesis by simp
  qed
qed

lemma chain_union:
  "chain a ws b \<Longrightarrow> (\<Union>(c, n) \<in> set ws. {c..<n}) = {a..<b}"
proof (induction ws arbitrary: a)
  case Nil
  then show ?case by simp
next
  case (Cons w ws)
  obtain c n where w: "w = (c, n)" by (cases w)
  from Cons.prems w have ch: "chain n ws b" and hd: "c = a" "c < n" by simp_all
  from chain_le [OF ch] hd have "{a..<n} \<union> {n..<b} = {a..<b}" by auto
  with Cons.IH [OF ch] w hd show ?case by simp
qed

lemma chain_ordered:
  "chain a ws b \<Longrightarrow> i < j \<Longrightarrow> j < length ws \<Longrightarrow> snd (ws ! i) \<le> fst (ws ! j)"
proof (induction ws arbitrary: a i j)
  case Nil
  then show ?case by simp
next
  case (Cons w ws)
  obtain c n where w: "w = (c, n)" by (cases w)
  from Cons.prems w have ch: "chain n ws b" by simp
  from Cons.prems obtain j' where j: "j = Suc j'" "j' < length ws" by (cases j) auto
  show ?case
  proof (cases i)
    case 0
    from j have "ws ! j' \<in> set ws" by simp
    then have "(fst (ws ! j'), snd (ws ! j')) \<in> set ws" by simp
    from chain_member [OF ch this] 0 j w show ?thesis by simp
  next
    case (Suc i')
    with Cons.prems j have "i' < j'" by simp
    from Cons.IH [OF ch this j(2)] Suc j show ?thesis by simp
  qed
qed

lemma example_windows:
  "windows jan1 (jan1 + 2 * day + 43200000000) =
     Inr [(jan1, jan1 + day), (jan1 + day, jan1 + 2 * day),
          (jan1 + 2 * day, jan1 + 2 * day + 43200000000)]"
  by (simp add: jan1_def day_def add_day_def datetime_max_def)

lemma example_clamp: "clamp (jan1 + 2 * day + 43200000000) example_now = jan1 + 2 * day + 43200000000"
  by (simp add: clamp_def example_now_def day_def)

lemma window_cases:
  assumes "window_error g (c, n) \<in> {None, Some HTTPError}"
  obtains (batch) b where "g (format_dt c) (format_dt n) = Inr b" "window_orders g (c, n) = b"
  | (http) "g (format_dt c) (format_dt n) = Inl HTTPError" "window_orders g (c, n) = []"
  using assms by (auto simp: window_error_def window_orders_def split: sum.splits)

lemma collect_swallows:
  "\<forall>w \<in> set ws. window_error g w \<in> {None, Some HTTPError} \<Longrightarrow>
   collect g ws acc = Inr (acc @ concat (map (window_orders g) ws))"
proof (induction ws arbitrary: acc)
  case Nil
  then show ?case by simp
next
  case (Cons w ws)
  obtain c n where w: "w = (c, n)" by (cases w)
  from Cons.prems have IH: "\<And>acc. collect g ws acc = Inr (acc @ concat (map (window_orders g) ws))"
    using Cons.IH by simp
  from Cons.prems w have "window_error g (c, n) \<in> {None, Some HTTPError}" by simp
  then show ?case
  proof (cases rule: window_cases)
    case (batch b)
    then show ?thesis by (simp add: w IH)
  next
    case http
    then show ?thesis by (simp add: w IH)
  qed
qed

lemma collect_aborts:
  "\<forall>w \<in> set pre. window_error g w \<in> {None, Some HTTPError} \<Longrightarrow>
   window_error g w = Some e \<Longrightarrow> e \<noteq> HTTPError \<Longrightarrow>
   collect g (pre @ w # post) acc = Inl e"
proof (induction pre arbitrary: acc)
  case Nil
  obtain c n where w: "w = (c, n)" by (cases w)
  from Nil show ?case
    by (auto simp: w window_error_def split: sum.splits error.splits)
next
  case (Cons p pre)
  obtain c n where p: "p = (c, n)" by (cases p)
  from Cons.prems have IH: "\<And>acc. collect g (pre @ w # post) acc = Inl e"
    using Cons.IH by simp
  from Cons.prems p have "window_error g (c, n) \<in> {None, Some HTTPError}" by simp
  then show ?case
  proof (cases rule: window_cases)
    case (batch b)
    then show ?thesis by (simp add: p IH)
  next
    case http
    then show ?thesis by (simp add: p IH)
  qed
qed

lemma example_fetch_connection_error:
  "fetch_orders example_strptime example_now (failing_fetch ConnectionError)
     ''2024-01-01 00:00:00.000'' ''2024-01-03 12:00:00.000'' = Inl ConnectionError"
  by (simp add: fetch_orders_def example_strptime_def clamp_def example_now_def Let_def
     failing_fetch_def jan1_def day_def add_day_def datetime_max_def format_dt_def)

lemma example_fetch_http_error:
  "fetch_orders example_strptime example_now (failing_fetch HTTPError)
     ''2024-01-01 00:00:00.000'' ''2024-01-03 12:00:00.000'' =
   Inr [order_of_window (format_dt jan1), order_of_window (format_dt (jan1 + 2 * day))]"
  by (simp add: fetch_orders_def example_strptime_def clamp_def example_now_def Let_def
     failing_fetch_def jan1_def day_def add_day_def datetime_max_def format_dt_def)

lemma example_window_errors:
  "window_error (failing_fetch err) (jan1, jan1 + day) = None"
  "window_error (failing_fetch err) (jan1 + day, jan1 + 2 * day) = Some err"
  "window_error (failing_fetch err) (jan1 + 2 * day, jan1 + 2 * day + 43200000000) = None"
  by (simp_all add: window_error_def failing_fetch_def format_dt_def jan1_def day_def)

lemma example_window_orders:
  "window_orders (failing_fetch err) (jan1, jan1 + day) = [order_of_window (format_dt jan1)]"
  "window_orders (failing_fetch err) (jan1 + day, jan1 + 2 * day) = []"
  "window_orders (failing_fetch err) (jan1 + 2 * day, jan1 + 2 * day + 43200000000) =
     [order_of_window (format_dt (jan1 + 2 * day))]"
  by (simp_all add: window_orders_def failing_fetch_def format_dt_def jan1_def day_def)

lemma example_in_range:
  "jan1 < jan1 + 2 * day + 43200000000"
  "jan1 + 2 * day + 43200000000 + day - 1 \<le> datetime_max"
  by (simp_all add: jan1_def day_def datetime_max_def)

section \<open>Properties of the collection\<close>

text \<open>
  Claim C1. When the start lies before the clamped end (and the clock is not within the
  last day that a \<^verbatim>\<open>datetime\<close> can hold), the loop walks through a non-empty list of
  windows: the first starts at the start, the last ends at the clamped end, each begins
  where the one before it ended, none is empty or longer than 24 hours, together they
  are exactly the interval from start to clamped end, and no two of them overlap. The
  loop calls the collaborator on exactly these windows, in this order.
\<close>

theorem windows_partition:
  assumes "start < clamp end0 now"
    and "clamp end0 now + day - 1 \<le> datetime_max"
  shows "\<exists>ws. windows start (clamp end0 now) = Inr ws \<and>
      ws \<noteq> [] \<and>
      fst (hd ws) = start \<and>
      snd (last ws) = clamp end0 now \<and>
      (\<forall>i. Suc i < length ws \<longrightarrow> snd (ws ! i) = fst (ws ! Suc i)) \<and>
      (\<forall>(c, n) \<in> set ws. c < n \<and> n - c \<le> day) \<and>
      (\<Union>(c, n) \<in> set ws. {c..<n}) = {start..<clamp end0 now} \<and>
      (\<forall>i j. i < j \<and> j < length ws \<longrightarrow>
         {fst (ws ! i)..<snd (ws ! i)} \<inter> {fst (ws ! j)..<snd (ws ! j)} = {}) \<and>
      (\<forall>g. fetch_loop g start (clamp end0 now) [] = collect g ws [])"
proof -
  from windows_returns [OF assms(2)] obtain ws
    where ws: "windows start (clamp end0 now) = Inr ws" by blast
  from windows_chain [OF ws] assms(1) have ch: "chain start ws (clamp end0 now)" by simp
  from ch assms(1) have ne: "ws \<noteq> []" by (cases ws) auto
  have "(\<forall>i j. i < j \<and> j < length ws \<longrightarrow>
         {fst (ws ! i)..<snd (ws ! i)} \<inter> {fst (ws ! j)..<snd (ws ! j)} = {})"
    using chain_ordered [OF ch] by fastforce
  moreover have "\<forall>(c, n) \<in> set ws. c < n \<and> n - c \<le> day"
    using chain_member [OF ch] by blast
  moreover have "\<forall>i. Suc i < length ws \<longrightarrow> snd (ws ! i) = fst (ws ! Suc i)"
    using chain_consecutive [OF ch] by blast
  moreover have "\<forall>g. fetch_loop g start (clamp end0 now) [] = collect g ws []"
    using fetch_loop_collect [OF ws] by blast
  ultimately show ?thesis
    using ws ne chain_hd_last [OF ch ne] chain_union [OF ch] by blast
qed

theorem windows_partition_witness:
  "jan1 < clamp (jan1 + 2 * day + 43200000000) example_now \<and>
   clamp (jan1 + 2 * day + 43200000000) example_now + day - 1 \<le> datetime_max \<and>
   windows jan1 (clamp (jan1 + 2 * day + 43200000000) example_now) =
     Inr [(jan1, jan1 + day), (jan1 + day, jan1 + 2 * day),
          (jan1 + 2 * day, jan1 + 2 * day + 43200000000)] \<and>
   (\<Union>(c, n) \<in> set [(jan1, jan1 + day), (jan1 + day, jan1 + 2 * day),
          (jan1 + 2 * day, jan1 + 2 * day + 43200000000)]. {c..<n}) =
     {jan1..<jan1 + 2 * day + 43200000000}"
proof -
  let ?e = "jan1 + 2 * day + 43200000000"
  have h1: "jan1 < clamp ?e example_now"
    and h2: "clamp ?e example_now + day - 1 \<le> datetime_max"
    unfolding example_clamp by (rule example_in_range)+
  from windows_partition [OF h1 h2] obtain ws
    where "windows jan1 (clamp ?e example_now) = Inr ws"
      and "(\<Union>(c, n) \<in> set ws. {c..<n}) = {jan1..<clamp ?e example_now}"
    by blast
  then have "(\<Union>(c, n) \<in> set [(jan1, jan1 + day), (jan1 + day, jan1 + 2 * day),
          (jan1 + 2 * day, ?e)]. {c..<n}) = {jan1..<?e}"
    by (simp only: example_clamp example_windows sum.inject)
  with h1 h2 show ?thesis by (simp only: example_clamp example_windows simp_thms)
qed

text \<open>
  Claim C5, as stated, at a failure of the transport that is not an HTTP status error:
  the collaborator raises \<^verbatim>\<open>requests.ConnectionError\<close> on the second of three windows,
  the \<^verbatim>\<open>except requests.HTTPError\<close> clause does not catch it, and \<^verbatim>\<open>fetch_orders\<close> raises
  instead of returning the orders of the first and the third window.
\<close>

theorem connection_error_not_swallowed:
  "windows jan1 (clamp (jan1 + 2 * day + 43200000000) example_now) =
     Inr [(jan1, jan1 + day), (jan1 + day, jan1 + 2 * day),
          (jan1 + 2 * day, jan1 + 2 * day + 43200000000)] \<and>
   window_error (failing_fetch ConnectionError) (jan1, jan1 + day) = None \<and>
   window_error (failing_fetch ConnectionError) (jan1 + day, jan1 + 2 * day) =
     Some ConnectionError \<and>
   window_error (failing_fetch ConnectionError)
     (jan1 + 2 * day, jan1 + 2 * day + 43200000000) = None \<and>
   fetch_orders example_strptime example_now (failing_fetch ConnectionError)
     ''2024-01-01 00:00:00.000'' ''2024-01-03 12:00:00.000'' = Inl ConnectionError \<and>
   fetch_orders example_strptime example_now (failing_fetch ConnectionError)
     ''2024-01-01 00:00:00.000'' ''2024-01-03 12:00:00.000'' \<noteq>
     Inr [order_of_window (format_dt jan1), order_of_window (format_dt (jan1 + 2 * day))]"
proof (intro conjI)
  show "windows jan1 (clamp (jan1 + 2 * day + 43200000000) example_now) =
     Inr [(jan1, jan1 + day), (jan1 + day, jan1 + 2 * day),
          (jan1 + 2 * day, jan1 + 2 * day + 43200000000)]"
    unfolding example_clamp by (rule example_windows)
  show "fetch_orders example_strptime example_now (failing_fetch ConnectionError)
     ''2024-01-01 00:00:00.000'' ''2024-01-03 12:00:00.000'' \<noteq>
     Inr [order_of_window (format_dt jan1), order_of_window (format_dt (jan1 + 2 * day))]"
    unfolding example_fetch_connection_error by (rule sum.distinct)
qed (rule example_window_errors example_fetch_connection_error)+

text \<open>
  Claim C5, amended. For every date range, when the collaborator raises
  \<^verbatim>\<open>requests.HTTPError\<close> for some windows and returns for the others, \<^verbatim>\<open>fetch_orders\<close>
  swallows each such failure, the window contributes no orders, and the result is the
  concatenation of the orders of the succeeding windows in the order of the windows. A
  failure of any other kind is not swallowed: the first one ends the collection.
\<close>

theorem fetch_orders_skips_http_errors:
  assumes "strptime frm = Inr start" and "strptime to = Inr end0"
    and "clamp end0 now + day - 1 \<le> datetime_max"
  shows "\<exists>ws. windows start (clamp end0 now) = Inr ws \<and>
     ((\<forall>w \<in> set ws. window_error g w \<in> {None, Some HTTPError}) \<longrightarrow>
        fetch_orders strptime now g frm to = Inr (concat (map (window_orders g) ws))) \<and>
     (\<forall>pre w post e. ws = pre @ w # post \<and>
        (\<forall>w \<in> set pre. window_error g w \<in> {None, Some HTTPError}) \<and>
        window_error g w = Some e \<and> e \<noteq> HTTPError \<longrightarrow>
        fetch_orders strptime now g frm to = Inl e)"
proof -
  from windows_returns [OF assms(3)] obtain ws
    where ws: "windows start (clamp end0 now) = Inr ws" by blast
  have f: "fetch_orders strptime now g frm to = collect g ws []"
    using assms(1,2) fetch_loop_collect [OF ws] by (simp add: fetch_orders_def)
  have "(\<forall>w \<in> set ws. window_error g w \<in> {None, Some HTTPError}) \<longrightarrow>
        fetch_orders strptime now g frm to = Inr (concat (map (window_orders g) ws))"
    using collect_swallows [of ws g "[]"] f by simp
  moreover have "\<forall>pre w post e. ws = pre @ w # post \<and>
        (\<forall>w \<in> set pre. window_error g w \<in> {None, Some HTTPError}) \<and>
        window_error g w = Some e \<and> e \<noteq> HTTPError \<longrightarrow>
        fetch_orders strptime now g frm to = Inl e"
    using collect_aborts [of _ g _ _ _ "[]"] f by auto
  ultimately show ?thesis using ws by blast
qed

theorem fetch_orders_skips_http_errors_witness:
  "example_strptime ''2024-01-01 00:00:00.000'' = Inr jan1 \<and>
   example_strptime ''2024-01-03 12:00:00.000'' = Inr (jan1 + 2 * day + 43200000000) \<and>
   clamp (jan1 + 2 * day + 43200000000) example_now + day - 1 \<le> datetime_max \<and>
   window_error (failing_fetch HTTPError) (jan1 + day, jan1 + 2 * day) = Some HTTPError \<and>
   fetch_orders example_strptime example_now (failing_fetch HTTPError)
     ''2024-01-01 00:00:00.000'' ''2024-01-03 12:00:00.000'' =
     Inr [order_of_window (format_dt jan1), order_of_window (format_dt (jan1 + 2 * day))]"
proof -
  let ?e = "jan1 + 2 * day + 43200000000"
  let ?g = "failing_fetch HTTPError"
  let ?ws = "[(jan1, jan1 + day), (jan1 + day, jan1 + 2 * day), (jan1 + 2 * day, ?e)]"
  have p1: "example_strptime ''2024-01-01 00:00:00.000'' = Inr jan1"
    and p2: "example_strptime ''2024-01-03 12:00:00.000'' = Inr ?e"
    by (simp_all add: example_strptime_def)
  have h: "clamp ?e example_now + day - 1 \<le> datetime_max"
    unfolding example_clamp by (rule example_in_range)
  have ok: "\<forall>w \<in> set ?ws. window_error ?g w \<in> {None, Some HTTPError}"
    by (simp only: list.set ball_simps example_window_errors) simp
  from fetch_orders_skips_http_errors [of example_strptime "''2024-01-01 00:00:00.000''" jan1
      "''2024-01-03 12:00:00.000''" ?e example_now ?g, OF p1 p2 h]
  have "fetch_orders example_strptime example_now ?g
     ''2024-01-01 00:00:00.000'' ''2024-01-03 12:00:00.000'' =
     Inr (concat (map (window_orders ?g) ?ws))"
    using ok by (auto simp only: example_clamp example_windows sum.inject)
  then have "fetch_orders example_strptime example_now ?g
     ''2024-01-01 00:00:00.000'' ''2024-01-03 12:00:00.000'' =
     Inr [order_of_window (format_dt jan1), order_of_window (format_dt (jan1 + 2 * day))]"
    by (simp only: list.map concat.simps example_window_orders append.simps)
  with p1 p2 h example_window_errors(2) [of HTTPError] show ?thesis by blast
qed

text \<open>
  Claim C9. When the start is not before the clamped end, the loop is never entered:
  there is no window, and \<^verbatim>\<open>fetch_orders\<close> returns the empty list of orders without
  raising and without calling the collaborator, whatever the collaborator would do.
\<close>

theorem fetch_orders_empty_range:
  assumes "strptime frm = Inr start" and "strptime to = Inr end0"
    and "clamp end0 now \<le> start"
  shows "windows start (clamp end0 now) = Inr [] \<and>
     fetch_orders strptime now g frm to = Inr []"
  using assms by (simp add: fetch_orders_def)

theorem fetch_orders_empty_range_witness:
  "example_strptime ''2024-01-01 00:00:00.000'' = Inr jan1 \<and>
   example_strptime ''2024-01-03 12:00:00.000'' = Inr (jan1 + 2 * day + 43200000000) \<and>
   clamp (jan1 + 2 * day + 43200000000) (jan1 - day) \<le> jan1 \<and>
   windows jan1 (clamp (jan1 + 2 * day + 43200000000) (jan1 - day)) = Inr [] \<and>
   fetch_orders example_strptime (jan1 - day) (failing_fetch ConnectionError)
     ''2024-01-01 00:00:00.000'' ''2024-01-03 12:00:00.000'' = Inr []"
proof -
  let ?e = "jan1 + 2 * day + 43200000000"
  have p1: "example_strptime ''2024-01-01 00:00:00.000'' = Inr jan1"
    and p2: "example_strptime ''2024-01-03 12:00:00.000'' = Inr ?e"
    by (simp_all add: example_strptime_def)
  have h: "clamp ?e (jan1 - day) \<le> jan1"
    by (simp add: clamp_def day_def)
  from p1 p2 h
    fetch_orders_empty_range [of example_strptime "''2024-01-01 00:00:00.000''" jan1
      "''2024-01-03 12:00:00.000''" ?e "jan1 - day" "failing_fetch ConnectionError",
      OF p1 p2 h]
  show ?thesis by blast
qed

section \<open>The summary over the store\<close>

lemma list_append_frame:
  "list_append h a v = (h', r) \<Longrightarrow>
   length h' = length h \<and> (\<forall>b. b \<noteq> a \<longrightarrow> h' ! b = h ! b)"
  by (auto simp: list_append_def split: option.splits pyobj.splits)

lemma body_at_frame:
  assumes "body_at h order ph iv nc np z = (h', r)"
  shows "length h' = length h \<and> (\<forall>b. b \<noteq> ph \<and> b \<noteq> iv \<longrightarrow> h' ! b = h ! b)"
  using assms
  by (auto simp: body_at_def Let_def
      split: sum.splits if_splits prod.splits pyval.splits
      dest!: list_append_frame)

lemma loop_at_frame:
  "loop_at fuel h orders i ph iv nc np z = Some (h', r) \<Longrightarrow>
   length h' = length h \<and> (\<forall>b. b \<noteq> ph \<and> b \<noteq> iv \<longrightarrow> h' ! b = h ! b)"
proof (induction fuel arbitrary: h i nc np z)
  case 0
  then show ?case by simp
next
  case (Suc fuel)
  show ?case
  proof (cases "deref h orders")
    case None
    with Suc.prems show ?thesis by simp
  next
    case (Some ob)
    show ?thesis
    proof (cases ob)
      case (ODict kvs)
      with Some Suc.prems show ?thesis by simp
    next
      case (OList items)
      show ?thesis
      proof (cases "i < length items")
        case False
        with Some OList Suc.prems show ?thesis by simp
      next
        case True
        obtain h1 r1 where b: "body_at h (items ! i) ph iv nc np z = (h1, r1)"
          by (cases "body_at h (items ! i) ph iv nc np z")
        note f = body_at_frame [OF b]
        show ?thesis
        proof (cases r1)
          case (Inl e)
          with Some OList True b Suc.prems f show ?thesis by simp
        next
          case (Inr t)
          obtain nc' np' z' where t: "t = (nc', np', z')" by (cases t)
          from Some OList True b Inr t Suc.prems
          have "loop_at fuel h1 orders (i + 1) ph iv nc' np' z' = Some (h', r)" by simp
          from Suc.IH [OF this] f show ?thesis by simp
        qed
      qed
    qed
  qed
qed

lemma loop_at_step:
  assumes "deref h orders = Some (OList items)"
  shows "loop_at (Suc fuel) h orders i ph iv nc np z =
     (if i < length items then
        (case body_at h (items ! i) ph iv nc np z of
           (h', Inl e) \<Rightarrow> Some (h', Inl e)
         | (h', Inr (nc', np', z')) \<Rightarrow> loop_at fuel h' orders (i + 1) ph iv nc' np' z')
      else Some (h, Inr (nc, np, z)))"
  by (simp add: assms)

lemma loop_at_returns:
  "deref h orders = Some (OList items) \<Longrightarrow> orders \<noteq> ph \<Longrightarrow> orders \<noteq> iv \<Longrightarrow>
   length items - i < fuel \<Longrightarrow> \<exists>res. loop_at fuel h orders i ph iv nc np z = Some res"
proof (induction fuel arbitrary: h i nc np z)
  case 0
  then show ?case by simp
next
  case (Suc fuel)
  note step = loop_at_step [OF Suc.prems(1), of fuel i ph iv nc np z]
  show ?case
  proof (cases "i < length items")
    case False
    then show ?thesis unfolding step by simp
  next
    case True
    obtain h1 r1 where b: "body_at h (items ! i) ph iv nc np z = (h1, r1)"
      by (cases "body_at h (items ! i) ph iv nc np z")
    from body_at_frame [OF b] Suc.prems(2,3)
    have "deref h1 orders = deref h orders" by (simp add: deref_def)
    with Suc.prems(1) have d: "deref h1 orders = Some (OList items)" by simp
    show ?thesis
    proof (cases r1)
      case (Inl e)
      with True b show ?thesis unfolding step by simp
    next
      case (Inr t)
      obtain nc' np' z' where t: "t = (nc', np', z')" by (cases t)
      from True Suc.prems(4) have "length items - (i + 1) < fuel" by arith
      from Suc.IH [OF d Suc.prems(2,3) this]
      obtain res where "loop_at fuel h1 orders (i + 1) ph iv nc' np' z' = Some res" by blast
      with True b Inr t show ?thesis unfolding step by simp
    qed
  qed
qed

lemma summarize_at_unfold:
  "summarize_at fuel h orders =
     (case loop_at fuel (h @ [OList [], OList []]) orders 0 (length h) (Suc (length h)) 0 0 0 of
        None \<Rightarrow> None
      | Some (h3, Inl e) \<Rightarrow> Some (h3, Inl e)
      | Some (h3, Inr (nc, np, z)) \<Rightarrow>
          Some (h3, build_summary h3 orders (length h) (Suc (length h)) nc np z))"
  by (simp add: summarize_at_def alloc_def split: option.splits prod.splits sum.splits)

lemma summarize_at_loop:
  assumes "summarize_at fuel h orders = Some (h', res)"
  shows "\<exists>t. loop_at fuel (h @ [OList [], OList []]) orders 0 (length h) (Suc (length h)) 0 0 0
           = Some (h', t)"
  using assms unfolding summarize_at_unfold
  by (auto split: option.splits prod.splits sum.splits)

lemma summarize_at_frame:
  assumes "summarize_at fuel h orders = Some (h', res)"
  shows "length h' = length h + 2 \<and> (\<forall>a < length h. h' ! a = h ! a)"
proof -
  from summarize_at_loop [OF assms] obtain t
    where "loop_at fuel (h @ [OList [], OList []]) orders 0 (length h) (Suc (length h)) 0 0 0
           = Some (h', t)" by blast
  from loop_at_frame [OF this]
  have len: "length h' = length (h @ [OList [], OList []])"
    and same: "\<And>b. b \<noteq> length h \<Longrightarrow> b \<noteq> Suc (length h) \<Longrightarrow>
      h' ! b = (h @ [OList [], OList []]) ! b"
    by blast+
  from len have "length h' = length h + 2" by simp
  moreover have "\<forall>a < length h. h' ! a = h ! a"
  proof (intro allI impI)
    fix a assume a: "a < length h"
    then have "h' ! a = (h @ [OList [], OList []]) ! a" by (intro same) simp_all
    with a show "h' ! a = h ! a" by (simp add: nth_append)
  qed
  ultimately show ?thesis by blast
qed

lemma summarize_at_returns:
  assumes "deref h orders = Some (OList items)" and "length items < fuel"
  shows "\<exists>h' res. summarize_at fuel h orders = Some (h', res)"
proof -
  from assms(1) have lt: "orders < length h" by (simp add: deref_def split: if_splits)
  with assms(1) have d: "deref (h @ [OList [], OList []]) orders = Some (OList items)"
    by (simp add: deref_def nth_append)
  from assms(2) have "length items - 0 < fuel" by simp
  from loop_at_returns [OF d _ _ this, of "length h" "Suc (length h)" 0 0 0] lt
  obtain p where "loop_at fuel (h @ [OList [], OList []]) orders 0 (length h) (Suc (length h)) 0 0 0 = Some p"
    by auto
  then show ?thesis
    unfolding summarize_at_unfold by (cases p) (auto split: sum.splits)
qed

lemma deref_grow:
  assumes "deref h a = Some ob" and "length h \<le> length h'"
    and "\<forall>b < length h. h' ! b = h ! b"
  shows "deref h' a = Some ob"
  using assms by (auto simp: deref_def split: if_splits)

lemma rep_stable:
  assumes "rep h v j" and "length h \<le> length h'" and "\<forall>b < length h. h' ! b = h ! b"
  shows "rep h' v j"
  using assms(1)
proof (induction rule: rep.induct)
  case (rep_List a vs js)
  from rep_List.IH have "list_all2 (rep h') vs js"
    by (rule list_all2_mono) simp
  with deref_grow [OF rep_List.hyps(1) assms(2,3)] show ?case by (rule rep.rep_List)
next
  case (rep_Dict a kvs kjs)
  from rep_Dict.IH have "list_all2 (rel_prod (=) (rep h')) kvs kjs"
    by (rule list_all2_mono) (auto simp: rel_prod_sel)
  with deref_grow [OF rep_Dict.hyps(1) assms(2,3)] show ?case by (rule rep.rep_Dict)
qed (auto intro: rep.intros)

lemma rep_truthy: "rep h v j \<Longrightarrow> truthy_at h v = truthy j"
  by (induction rule: rep.cases) (auto dest: list_all2_lengthD)

lemma rep_eq_zero: "rep h v j \<Longrightarrow> eq_zero_val v = eq_zero j"
  by (induction rule: rep.cases) auto

lemma rep_string: "rep h v j \<Longrightarrow> (\<exists>p. v = VStr p) \<longleftrightarrow> (\<exists>p. j = JStr p)"
  by (induction rule: rep.cases) auto

lemma rep_map_of:
  "list_all2 (rel_prod (=) (rep h)) kvs kjs \<Longrightarrow>
   rel_option (rep h) (map_of kvs k) (map_of kjs k)"
  by (induction rule: list_all2_induct) (auto simp: rel_prod_sel)

lemma rep_get:
  assumes "rep h v j" and "rep h d dj"
  shows "rel_sum (=) (rep h) (get_at h v k d) (get_default j k dj)"
  using assms(1)
proof (cases rule: rep.cases)
  case (rep_Dict a kvs kjs)
  from rep_map_of [OF rep_Dict(4), of k] assms(2) rep_Dict(1,2,3) show ?thesis
    by (auto simp: option.rel_sel split: option.splits)
qed (simp_all)

lemma rep_extends: "rep h0 v j \<Longrightarrow> extends h0 h \<Longrightarrow> rep h v j"
  unfolding extends_def by (rule rep_stable) auto

lemma rep_truthy_extends: "rep h0 v j \<Longrightarrow> extends h0 h \<Longrightarrow> truthy_at h v = truthy j"
  by (rule rep_truthy [OF rep_extends])

lemma rep_get_extends:
  assumes "rep h0 v j" and "extends h0 h" and "rep h0 d dj"
  shows "rel_sum (=) (rep h0) (get_at h v k d) (get_default j k dj)"
  using assms(1)
proof (cases rule: rep.cases)
  case (rep_Dict a kvs kjs)
  from rep_Dict(3) assms(2) have "deref h a = Some (ODict kvs)"
    unfolding extends_def by (auto intro: deref_grow)
  with rep_map_of [OF rep_Dict(4), of k] assms(3) rep_Dict(1,2) show ?thesis
    by (auto simp: option.rel_sel split: option.splits)
next
  case (rep_List a vs js)
  from rep_List(3) assms(2) have "deref h a = Some (OList vs)"
    unfolding extends_def by (auto intro: deref_grow)
  with rep_List(1,2) show ?thesis by simp
qed (simp_all)

lemma rel_sum_Inl: "rel_sum (=) R x (Inl e) \<Longrightarrow> x = Inl e"
  by (cases x) auto

lemma rel_sum_Inr: "rel_sum (=) R x (Inr b) \<Longrightarrow> \<exists>a. x = Inr a \<and> R a b"
  by (cases x) auto

lemma extends_update:
  "extends h0 h \<Longrightarrow> length h0 \<le> a \<Longrightarrow> extends h0 (h[a := ob])"
  by (auto simp: extends_def)

lemma list_append_list:
  "deref h a = Some (OList xs) \<Longrightarrow> list_append h a v = (h[a := OList (xs @ [v])], Inr ())"
  by (simp add: list_append_def)

lemma deref_update:
  "deref (h[a := ob]) b = (if b = a \<and> a < length h then Some ob else deref h b)"
  by (auto simp: deref_def)

lemma deref_Some_less: "deref h a = Some ob \<Longrightarrow> a < length h"
  by (simp add: deref_def split: if_splits)

lemma body_at_analyse:
  assumes ord: "rep h0 order j" and ext: "extends h0 h"
    and fresh: "length h0 \<le> ph" "length h0 \<le> iv" "ph \<noteq> iv"
    and P: "deref h ph = Some (OList (map VStr ps))"
    and I: "deref h iv = Some (OList (map VStr ivs))"
  shows "(\<forall>e. analyse j = Inl e \<longrightarrow> (\<exists>h'. body_at h order ph iv nc np z = (h', Inl e))) \<and>
     (\<forall>v. analyse j = Inr v \<longrightarrow>
        (\<exists>h'. body_at h order ph iv nc np z =
                 (h', Inr (snd (snd (tally v (ps, ivs, nc, np, z))))) \<and>
              deref h' ph = Some (OList (map VStr (fst (tally v (ps, ivs, nc, np, z))))) \<and>
              deref h' iv =
                Some (OList (map VStr (fst (snd (tally v (ps, ivs, nc, np, z))))))))"
    (is "?goal")
proof -
  have g1: "rel_sum (=) (rep h0) (get_at h order ''order'' VNone) (get j ''order'')"
    unfolding get_def by (rule rep_get_extends [OF ord ext rep.rep_None])
  show ?thesis
  proof (cases "get j ''order''")
    case (Inl e)
    with g1 have "get_at h order ''order'' VNone = Inl e" by (simp add: rel_sum_Inl)
    with Inl show ?thesis by (simp add: analyse_def unwrap_def body_at_def)
  next
    case (Inr jw)
    with g1 obtain w where w: "get_at h order ''order'' VNone = Inr w" and rw: "rep h0 w jw"
      using rel_sum_Inr by fastforce
    define od where "od = (if truthy_at h w then w else order)"
    define jod where "jod = (if truthy jw then jw else j)"
    have tw: "truthy_at h w = truthy jw" by (rule rep_truthy_extends [OF rw ext])
    have rod: "rep h0 od jod" using rw ord tw by (simp add: od_def jod_def)
    have an: "analyse j = analyse_view jod"
      using Inr by (simp add: analyse_def unwrap_def jod_def)
    have bd: "body_at h order ph iv nc np z =
      (case get_at h od ''customer'' VNone of
        Inl e \<Rightarrow> (h, Inl e)
      | Inr customer \<Rightarrow>
     if \<not> truthy_at h customer then (h, Inr (nc + 1, np, z))
     else
     (case get_at h od ''phone'' VNone of
        Inl e \<Rightarrow> (h, Inl e)
      | Inr phv \<Rightarrow>
     if \<not> truthy_at h phv then (h, Inr (nc, np + 1, z))
     else
     (case list_append h ph phv of
        (h1, Inl e) \<Rightarrow> (h1, Inl e)
      | (h1, Inr u) \<Rightarrow>
     (case phv of
        VStr p \<Rightarrow>
          (case (if \<not> re_match PHONE_PATTERN p then list_append h1 iv phv
                 else (h1, Inr ())) of
             (h2, Inl e) \<Rightarrow> (h2, Inl e)
           | (h2, Inr u) \<Rightarrow>
          (case get_at h2 od ''sum'' (VInt 0) of
             Inl e \<Rightarrow> (h2, Inl e)
           | Inr total_sum \<Rightarrow>
               (h2, Inr (nc, np, if eq_zero_val total_sum then z + 1 else z))))
      | _ \<Rightarrow> (h1, Inl TypeError)))))"
      unfolding body_at_def w sum.case Let_def od_def [symmetric] by (rule refl)
    have g2: "rel_sum (=) (rep h0) (get_at h od ''customer'' VNone) (get jod ''customer'')"
      unfolding get_def by (rule rep_get_extends [OF rod ext rep.rep_None])
    show ?thesis
    proof (cases "get jod ''customer''")
      case (Inl e)
      with g2 have "get_at h od ''customer'' VNone = Inl e" by (simp add: rel_sum_Inl)
      with Inl show ?thesis by (simp add: an analyse_view_def bd)
    next
      case c: (Inr jc)
      with g2 obtain c where c': "get_at h od ''customer'' VNone = Inr c" and rc: "rep h0 c jc"
        using rel_sum_Inr by fastforce
      have tc: "truthy_at h c = truthy jc" by (rule rep_truthy_extends [OF rc ext])
      show ?thesis
      proof (cases "truthy jc")
        case False
        then show ?thesis using c c' tc P I by (simp add: an analyse_view_def bd)
      next
        case True
        have g3: "rel_sum (=) (rep h0) (get_at h od ''phone'' VNone) (get jod ''phone'')"
          unfolding get_def by (rule rep_get_extends [OF rod ext rep.rep_None])
        show ?thesis
        proof (cases "get jod ''phone''")
          case (Inl e)
          with g3 have "get_at h od ''phone'' VNone = Inl e" by (simp add: rel_sum_Inl)
          with Inl True c c' tc show ?thesis by (simp add: an analyse_view_def bd)
        next
          case p: (Inr jph)
          with g3 obtain phv where p': "get_at h od ''phone'' VNone = Inr phv"
            and rp: "rep h0 phv jph"
            using rel_sum_Inr by fastforce
          have tp: "truthy_at h phv = truthy jph" by (rule rep_truthy_extends [OF rp ext])
          show ?thesis
          proof (cases "truthy jph")
            case False
            then show ?thesis using True c c' tc p p' tp P I
              by (simp add: an analyse_view_def bd)
          next
            case tph: True
            let ?h1 = "h[ph := OList (map VStr ps @ [phv])]"
            have la: "list_append h ph phv = (?h1, Inr ())"
              by (rule list_append_list [OF P])
            have ext1: "extends h0 ?h1" by (rule extends_update [OF ext fresh(1)])
            have I1: "deref ?h1 iv = Some (OList (map VStr ivs))"
              using I fresh(3) by (simp add: deref_update)
            have P1: "deref ?h1 ph = Some (OList (map VStr ps @ [phv]))"
              using deref_Some_less [OF P] by (simp add: deref_update)
            show ?thesis
            proof (cases "\<exists>q. jph = JStr q")
              case False
              with rep_string [OF rp] have nv: "\<nexists>q. phv = VStr q" by simp
              from False have "analyse_view jod = Inl TypeError"
                using True c p tph by (cases jph) (simp_all add: analyse_view_def)
              moreover from nv have "body_at h order ph iv nc np z = (?h1, Inl TypeError)"
                using True c' tc p' tp tph la by (cases phv) (simp_all add: bd)
              ultimately show ?thesis by (simp add: an)
            next
              case True
              then obtain q where q: "jph = JStr q" by blast
              with rp have vq: "phv = VStr q" by (cases rule: rep.cases) auto
              let ?h1q = "h[ph := OList (map VStr ps @ [VStr q])]"
              define h2 where "h2 = (if \<not> re_match PHONE_PATTERN q
                 then ?h1q[iv := OList (map VStr ivs @ [VStr q])] else ?h1q)"
              have laq: "list_append h ph (VStr q) = (?h1q, Inr ())"
                using la by (simp add: vq)
              have la2: "(if \<not> re_match PHONE_PATTERN q then list_append ?h1q iv (VStr q)
                 else (?h1q, Inr ())) = (h2, Inr ())"
                using list_append_list [OF I1, of "VStr q"] by (simp add: h2_def vq)
              have ext2: "extends h0 h2"
                using ext1 extends_update [OF ext1 fresh(2)] by (simp add: h2_def vq)
              have P2: "deref h2 ph = Some (OList (map VStr (ps @ [q])))"
                using P1 fresh(3) vq by (simp add: h2_def deref_update)
              have I2: "deref h2 iv = Some (OList (map VStr
                  (if \<not> re_match PHONE_PATTERN q then ivs @ [q] else ivs)))"
                using I1 deref_Some_less [OF I1] vq by (simp add: h2_def deref_update)
              have g4: "rel_sum (=) (rep h0) (get_at h2 od ''sum'' (VInt 0))
                  (get_default jod ''sum'' (JInt 0))"
                by (rule rep_get_extends [OF rod ext2 rep.rep_Int])
              have bd2: "body_at h order ph iv nc np z =
                  (case get_at h2 od ''sum'' (VInt 0) of
                     Inl e \<Rightarrow> (h2, Inl e)
                   | Inr total_sum \<Rightarrow>
                       (h2, Inr (nc, np, if eq_zero_val total_sum then z + 1 else z)))"
                unfolding bd c' p' vq laq sum.case prod.case pyval.case la2
                using \<open>truthy jc\<close> tc tph tp q by (simp add: vq)
              show ?thesis
              proof (cases "get_default jod ''sum'' (JInt 0)")
                case (Inl e)
                with g4 have "get_at h2 od ''sum'' (VInt 0) = Inl e" by (simp add: rel_sum_Inl)
                with Inl \<open>truthy jc\<close> c p tph q show ?thesis
                  by (simp add: an analyse_view_def bd2)
              next
                case s: (Inr js)
                with g4 obtain sv where s': "get_at h2 od ''sum'' (VInt 0) = Inr sv"
                  and rs: "rep h0 sv js"
                  using rel_sum_Inr by fastforce
                have ez: "eq_zero_val sv = eq_zero js" by (rule rep_eq_zero [OF rs])
                have a: "analyse_view jod = Inr (WithPhone q (eq_zero js))"
                  using \<open>truthy jc\<close> c p tph q s by (simp add: analyse_view_def)
                have b: "body_at h order ph iv nc np z =
                    (h2, Inr (nc, np, if eq_zero js then z + 1 else z))"
                  by (simp add: bd2 s' ez)
                show ?thesis using a b P2 I2 by (simp add: an)
              qed
            qed
          qed
        qed
      qed
    qed
  qed
qed

lemma extends_frame:
  assumes "extends h0 h" and "length h' = length h"
    and "\<forall>b. b \<noteq> ph \<and> b \<noteq> iv \<longrightarrow> h' ! b = h ! b"
    and "length h0 \<le> ph" and "length h0 \<le> iv"
  shows "extends h0 h'"
  using assms by (auto simp: extends_def)

lemma extends_deref: "extends h0 h \<Longrightarrow> deref h0 a = Some ob \<Longrightarrow> deref h a = Some ob"
  unfolding extends_def by (auto intro: deref_grow)

lemma strings_of_map_VStr: "strings_of (map VStr ps) = ps"
  by (induction ps) simp_all

lemma loop_at_refines:
  assumes "deref h0 orders = Some (OList items)"
    and "length h0 \<le> ph" and "length h0 \<le> iv" and "ph \<noteq> iv"
  shows "extends h0 h \<Longrightarrow>
     deref h ph = Some (OList (map VStr ps)) \<Longrightarrow>
     deref h iv = Some (OList (map VStr ivs)) \<Longrightarrow>
     list_all2 (rep h0) (drop i items) js \<Longrightarrow>
     length items - i < fuel \<Longrightarrow>
     \<exists>h'. extends h0 h' \<and>
       (case summarize_loop js ps ivs nc np z of
          Inl e \<Rightarrow> loop_at fuel h orders i ph iv nc np z = Some (h', Inl e)
        | Inr (ps', iv', c) \<Rightarrow>
            loop_at fuel h orders i ph iv nc np z = Some (h', Inr c) \<and>
            deref h' ph = Some (OList (map VStr ps')) \<and>
            deref h' iv = Some (OList (map VStr iv')))"
proof (induction js arbitrary: h i ps ivs nc np z fuel)
  case Nil
  from Nil.prems(4) have i: "\<not> i < length items" by simp
  from Nil.prems(5) obtain f where f: "fuel = Suc f" by (cases fuel) simp_all
  have d: "deref h orders = Some (OList items)"
    by (rule extends_deref [OF Nil.prems(1) assms(1)])
  have "loop_at fuel h orders i ph iv nc np z = Some (h, Inr (nc, np, z))"
    unfolding f loop_at_step [OF d] using i by simp
  with Nil.prems(1,2,3) show ?case by auto
next
  case (Cons j js)
  from Cons.prems(4) have i: "i < length items"
    by (cases "i < length items") simp_all
  then have dr: "drop i items = items ! i # drop (Suc i) items"
    by (rule Cons_nth_drop_Suc [symmetric])
  with Cons.prems(4) have rj: "rep h0 (items ! i) j"
    and rest: "list_all2 (rep h0) (drop (i + 1) items) js"
    by simp_all
  from Cons.prems(5) i obtain f where f: "fuel = Suc f" and lf: "length items - (i + 1) < f"
    by (cases fuel) auto
  have d: "deref h orders = Some (OList items)"
    by (rule extends_deref [OF Cons.prems(1) assms(1)])
  have step: "loop_at fuel h orders i ph iv nc np z =
      (case body_at h (items ! i) ph iv nc np z of
         (h', Inl e) \<Rightarrow> Some (h', Inl e)
       | (h', Inr (nc', np', z')) \<Rightarrow> loop_at f h' orders (i + 1) ph iv nc' np' z')"
    unfolding f loop_at_step [OF d] if_P [OF i] by (rule refl)
  note body = body_at_analyse [OF rj Cons.prems(1) assms(2,3,4) Cons.prems(2,3), of nc np z]
  show ?case
  proof (cases "analyse j")
    case (Inl e)
    with body obtain h' where b: "body_at h (items ! i) ph iv nc np z = (h', Inl e)" by blast
    from body_at_frame [OF b] have "extends h0 h'"
      using extends_frame [OF Cons.prems(1) _ _ assms(2,3)] by blast
    moreover have "summarize_loop (j # js) ps ivs nc np z = Inl e"
      by (simp add: summarize_loop_step Inl del: summarize_loop.simps)
    moreover have "loop_at fuel h orders i ph iv nc np z = Some (h', Inl e)"
      by (simp add: step b)
    ultimately show ?thesis by auto
  next
    case (Inr v)
    obtain ps1 iv1 nc1 np1 z1 where t: "tally v (ps, ivs, nc, np, z) = (ps1, iv1, nc1, np1, z1)"
      by (metis prod_cases5)
    from body Inr t obtain h1 where b: "body_at h (items ! i) ph iv nc np z = (h1, Inr (nc1, np1, z1))"
      and P1: "deref h1 ph = Some (OList (map VStr ps1))"
      and I1: "deref h1 iv = Some (OList (map VStr iv1))"
      by auto
    from body_at_frame [OF b] have e1: "extends h0 h1"
      using extends_frame [OF Cons.prems(1) _ _ assms(2,3)] by blast
    from Cons.IH [OF e1 P1 I1 rest lf, of nc1 np1 z1] obtain h'
      where e': "extends h0 h'"
        and r: "(case summarize_loop js ps1 iv1 nc1 np1 z1 of
          Inl e \<Rightarrow> loop_at f h1 orders (i + 1) ph iv nc1 np1 z1 = Some (h', Inl e)
        | Inr (ps', iv', c) \<Rightarrow>
            loop_at f h1 orders (i + 1) ph iv nc1 np1 z1 = Some (h', Inr c) \<and>
            deref h' ph = Some (OList (map VStr ps')) \<and>
            deref h' iv = Some (OList (map VStr iv')))"
      by blast
    have sl: "summarize_loop (j # js) ps ivs nc np z = summarize_loop js ps1 iv1 nc1 np1 z1"
      by (simp add: summarize_loop_step Inr t del: summarize_loop.simps)
    have lp: "loop_at fuel h orders i ph iv nc np z = loop_at f h1 orders (i + 1) ph iv nc1 np1 z1"
      by (simp add: step b)
    from e' r show ?thesis unfolding sl lp by blast
  qed
qed

lemma summarize_at_refines:
  assumes "deref h orders = Some (OList items)" and "list_all2 (rep h) items js"
    and "length items < fuel"
  shows "\<exists>h'. summarize_at fuel h orders = Some (h', summarize js)"
proof -
  let ?h = "h @ [OList [], OList []]"
  have ext: "extends h ?h" by (simp add: extends_def nth_append)
  have P: "deref ?h (length h) = Some (OList (map VStr []))"
    by (simp add: deref_def nth_append)
  have I: "deref ?h (Suc (length h)) = Some (OList (map VStr []))"
    by (simp add: deref_def nth_append)
  from assms(2) have r: "list_all2 (rep h) (drop 0 items) js" by simp
  from assms(3) have l: "length items - 0 < fuel" by simp
  from loop_at_refines [OF assms(1) _ _ _ ext P I r l, of 0 0 0] obtain h'
    where e': "extends h h'"
      and c: "(case summarize_loop js [] [] 0 0 0 of
          Inl e \<Rightarrow> loop_at fuel ?h orders 0 (length h) (Suc (length h)) 0 0 0 = Some (h', Inl e)
        | Inr (ps', iv', c) \<Rightarrow>
            loop_at fuel ?h orders 0 (length h) (Suc (length h)) 0 0 0 = Some (h', Inr c) \<and>
            deref h' (length h) = Some (OList (map VStr ps')) \<and>
            deref h' (Suc (length h)) = Some (OList (map VStr iv')))"
    by auto
  have o: "deref h' orders = Some (OList items)" by (rule extends_deref [OF e' assms(1)])
  have len: "length items = length js" by (rule list_all2_lengthD [OF assms(2)])
  show ?thesis
  proof (cases "summarize_loop js [] [] 0 0 0")
    case (Inl e)
    with c show ?thesis by (simp add: summarize_at_unfold summarize_def)
  next
    case (Inr t)
    obtain ps' iv' nc' np' z' where t: "t = (ps', iv', nc', np', z')" by (metis prod_cases5)
    from c Inr t have lp: "loop_at fuel ?h orders 0 (length h) (Suc (length h)) 0 0 0
        = Some (h', Inr (nc', np', z'))"
      and P': "deref h' (length h) = Some (OList (map VStr ps'))"
      and I': "deref h' (Suc (length h)) = Some (OList (map VStr iv'))"
      by simp_all
    have "build_summary h' orders (length h) (Suc (length h)) nc' np' z' = summarize js"
      by (simp add: build_summary_def list_at_def P' I' o strings_of_map_VStr len
          summarize_def Inr t)
    with lp show ?thesis by (simp add: summarize_at_unfold)
  qed
qed

lemma shared_store_summary:
  "summarize_at 3 shared_store 2 =
     Some (shared_store @ [OList [VStr ''+380501234567'', VStr ''+380501234567''], OList []],
           Inr \<lparr> total = 2, no_client = 0, no_phone = 0, invalid = [], inv_count = 0,
                 zero = 2, unique = 1, dup = [(''+380501234567'', 2)] \<rparr>)"
  by (simp add: summarize_at_def alloc_def shared_store_def eval_nat_numeral deref_def
      body_at_def list_append_def example_phone_matches build_summary_def list_at_def
      Counter_def Let_def)

lemma shared_store_deref:
  "deref shared_store 0 = Some (ODict [(''id'', VStr ''c1'')])"
  "deref shared_store 1 = Some (ODict [(''customer'', VRef 0),
      (''phone'', VStr ''+380501234567''), (''sum'', VInt 0)])"
  "deref shared_store 2 = Some (OList [VRef 1, VRef 1])"
  by (simp_all add: shared_store_def deref_def)

lemma shared_store_rep:
  "list_all2 (rep shared_store) [VRef 1, VRef 1] [shared_order, shared_order]"
proof -
  have c: "rep shared_store (VRef 0) (JDict [(''id'', JStr ''c1'')])"
    by (rule rep.rep_Dict [OF shared_store_deref(1)]) (simp add: rep.rep_Str)
  have "rep shared_store (VRef 1) shared_order"
    unfolding shared_order_def
    by (rule rep.rep_Dict [OF shared_store_deref(2)]) (simp add: rep.rep_Str rep.rep_Int c)
  then show ?thesis by simp
qed

lemma shared_order_summary:
  "summarize [shared_order, shared_order] =
     Inr \<lparr> total = 2, no_client = 0, no_phone = 0, invalid = [], inv_count = 0,
           zero = 2, unique = 1, dup = [(''+380501234567'', 2)] \<rparr>"
  by (simp add: shared_order_def summarize_def unwrap_def get_def Counter_def
      example_phone_matches)

section \<open>The summary leaves its input alone\<close>

text \<open>
  Claim C10. Whatever \<^verbatim>\<open>summarize\<close> does on a store, and also when it raises, every
  object that was in the store before the call is the same after it: the only objects
  that the loop writes to are the two lists it has created itself. So when the list of
  orders holds the JSON values \<open>js\<close> before the call, the call returns what the summary
  of \<open>js\<close> is, and afterwards the same list object still holds the same \<open>js\<close>, ready to
  be read again. On any list of orders the call ends, given fuel for one step per order.
\<close>

theorem summarize_at_leaves_input:
  "(\<forall>h' res. summarize_at fuel h orders = Some (h', res) \<longrightarrow>
      length h' = length h + 2 \<and> (\<forall>a < length h. h' ! a = h ! a)) \<and>
   (\<forall>items js. deref h orders = Some (OList items) \<and> list_all2 (rep h) items js \<and>
      length items < fuel \<longrightarrow>
      (\<exists>h'. summarize_at fuel h orders = Some (h', summarize js) \<and>
            deref h' orders = Some (OList items) \<and> list_all2 (rep h') items js)) \<and>
   (\<forall>items. deref h orders = Some (OList items) \<and> length items < fuel \<longrightarrow>
      (\<exists>h' res. summarize_at fuel h orders = Some (h', res)))"
proof -
  have frame: "\<forall>h' res. summarize_at fuel h orders = Some (h', res) \<longrightarrow>
      length h' = length h + 2 \<and> (\<forall>a < length h. h' ! a = h ! a)"
    using summarize_at_frame by blast
  have same: "\<exists>h'. summarize_at fuel h orders = Some (h', summarize js) \<and>
            deref h' orders = Some (OList items) \<and> list_all2 (rep h') items js"
    if a: "deref h orders = Some (OList items) \<and> list_all2 (rep h) items js \<and>
      length items < fuel" for items js
  proof -
    from a obtain h' where s: "summarize_at fuel h orders = Some (h', summarize js)"
      using summarize_at_refines by blast
    from summarize_at_frame [OF s] have e: "extends h h'" by (simp add: extends_def)
    from a have "deref h' orders = Some (OList items)"
      using extends_deref [OF e] by blast
    moreover from a have "list_all2 (rep h') items js"
      using rep_extends [OF _ e] by (auto elim: list_all2_mono)
    ultimately show ?thesis using s by blast
  qed
  have ends: "\<forall>items. deref h orders = Some (OList items) \<and> length items < fuel \<longrightarrow>
      (\<exists>h' res. summarize_at fuel h orders = Some (h', res))"
    using summarize_at_returns by blast
  from frame same ends show ?thesis by blast
qed

theorem summarize_at_leaves_input_witness:
  "deref shared_store 2 = Some (OList [VRef 1, VRef 1]) \<and>
   list_all2 (rep shared_store) [VRef 1, VRef 1] [shared_order, shared_order] \<and>
   summarize_at 3 shared_store 2 =
     Some (shared_store @ [OList [VStr ''+380501234567'', VStr ''+380501234567''], OList []],
           summarize [shared_order, shared_order]) \<and>
   summarize [shared_order, shared_order] =
     Inr \<lparr> total = 2, no_client = 0, no_phone = 0, invalid = [], inv_count = 0,
           zero = 2, unique = 1, dup = [(''+380501234567'', 2)] \<rparr> \<and>
   take 3 (shared_store @ [OList [VStr ''+380501234567'', VStr ''+380501234567''], OList []])
     = shared_store \<and>
   list_all2
     (rep (shared_store @ [OList [VStr ''+380501234567'', VStr ''+380501234567''], OList []]))
     [VRef 1, VRef 1] [shared_order, shared_order]"
proof -
  let ?h' = "shared_store @ [OList [VStr ''+380501234567'', VStr ''+380501234567''], OList []]"
  have d: "deref shared_store 2 = Some (OList [VRef 1, VRef 1])"
    by (rule shared_store_deref)
  have f: "length [VRef 1, VRef 1 :: pyval] < 3" by simp
  from summarize_at_leaves_input [of 3 shared_store 2] d shared_store_rep f
  obtain h' where h': "summarize_at 3 shared_store 2 =
      Some (h', summarize [shared_order, shared_order])"
    and r': "list_all2 (rep h') [VRef 1, VRef 1] [shared_order, shared_order]"
    by blast
  from h' have eq: "h' = ?h'"
    by (simp add: shared_store_summary)
  have t: "take 3 ?h' = shared_store" by (simp add: shared_store_def)
  from d shared_store_rep h' r' shared_order_summary t show ?thesis
    unfolding eq by blast
qed

end
